theory Spec2Isabelle
  imports Complex_Main "HOL-Library.Product_Lexorder" "HOL-Library.Multiset"
begin

section \<open>KNEXA-FL: the LinUCB matchmaking bandit and the split serializer\<close>

text \<open>
  A shallow embedding of \<^verbatim>\<open>cpm_linucb.py\<close> and of \<^verbatim>\<open>_alloc_splits\<close> from
  \<^verbatim>\<open>split_serializer.py\<close>.

  Numbers: the source computes in IEEE floating point (\<^verbatim>\<open>float32\<close> arrays, Python
  \<^verbatim>\<open>float\<close> scores). The embedding comes in two layers. The first idealises the numbers
  as \<^typ>\<open>real\<close>; it carries the shape rules, the enumeration, the sort and the greedy
  selection, and the exact linear algebra. The second (\<open>LinUCB32\<close>, \<open>update32\<close>, \<open>beta64\<close>,
  \<open>conf32\<close>, \<open>ucb_score32\<close>) computes the arrays and the scores with the roundings of
  \<^verbatim>\<open>float32\<close> and \<^verbatim>\<open>float64\<close>, overflow and NaN included; the properties of the
  computed values are stated on it.

  Arrays: a one-dimensional array or an \<open>(m, 1)\<close> column is a \<^typ>\<open>real list\<close>, a
  two-dimensional array is the list of its rows. The shape checks that numpy performs
  (matrix product, in-place addition with broadcasting) are written out and fail with
  \<open>ValueError\<close>, as numpy does.
\<close>

subsection \<open>Arrays and the numpy operations the source uses\<close>

type_synonym vec = "real list"
type_synonym mat = "real list list"

datatype error = ValueError | LinAlgError | RuntimeError | KeyError | TypeError

text \<open>\<open>is_mat r c M\<close>: the list of rows \<open>M\<close> is an array of shape \<open>(r, c)\<close>.\<close>

definition is_mat :: "nat \<Rightarrow> nat \<Rightarrow> mat \<Rightarrow> bool" where
  "is_mat r c M = (length M = r \<and> list_all (\<lambda>row. length row = c) M)"

definition ncols :: "mat \<Rightarrow> nat" where
  "ncols M = (case M of [] \<Rightarrow> 0 | row # _ \<Rightarrow> length row)"

text \<open>\<^verbatim>\<open>np.eye(n)\<close>, \<^verbatim>\<open>np.zeros((n, 1))\<close> and the scalar multiple \<^verbatim>\<open>c * M\<close>.\<close>

definition eye :: "nat \<Rightarrow> mat" where
  "eye n = map (\<lambda>i. map (\<lambda>j. if i = j then 1 else 0) [0..<n]) [0..<n]"

definition zeros :: "nat \<Rightarrow> vec" where
  "zeros n = replicate n 0"

definition smult :: "real \<Rightarrow> mat \<Rightarrow> mat" where
  "smult c M = map (map ((*) c)) M"

text \<open>\<^verbatim>\<open>u.T @ v\<close> for two columns: defined when the lengths agree.\<close>

definition dot :: "vec \<Rightarrow> vec \<Rightarrow> error + real" where
  "dot u v = (if length u = length v then Inr (sum_list (map2 (*) u v)) else Inl ValueError)"

text \<open>\<^verbatim>\<open>x.T @ M\<close>: a row of length \<open>m\<close> times an \<open>(m, c)\<close> array, giving a row of
  length \<open>c\<close>.\<close>

definition vec_mat :: "vec \<Rightarrow> mat \<Rightarrow> error + vec" where
  "vec_mat x M =
     (if is_mat (length x) (ncols M) M
      then Inr (map (\<lambda>j. sum_list (map2 (*) x (map (\<lambda>row. row ! j) M))) [0..<ncols M])
      else Inl ValueError)"

text \<open>\<^verbatim>\<open>x @ x.T\<close>: the outer product of a column with itself, of shape \<open>(m, m)\<close>.\<close>

definition outer :: "vec \<Rightarrow> vec \<Rightarrow> mat" where
  "outer x y = map (\<lambda>xi. map (\<lambda>yj. xi * yj) y) x"

text \<open>
  In-place addition \<^verbatim>\<open>T += X\<close> with numpy's broadcasting. An axis of \<open>X\<close> must have
  the length of the same axis of \<open>T\<close>, or length 1 (its single entry is then repeated
  along the axis); anything else raises \<open>ValueError\<close>. \<open>bc n m i\<close> is the index read on
  an axis of length \<open>m\<close> broadcast to length \<open>n\<close>.
\<close>

definition bc_ok :: "nat \<Rightarrow> nat \<Rightarrow> bool" where
  "bc_ok n m = (m = n \<or> m = 1)"

definition bc :: "nat \<Rightarrow> nat \<Rightarrow> nat \<Rightarrow> nat" where
  "bc n m i = (if m = n then i else 0)"

definition iadd_col :: "vec \<Rightarrow> vec \<Rightarrow> error + vec" where
  "iadd_col t x =
     (if bc_ok (length t) (length x)
      then Inr (map (\<lambda>i. t ! i + x ! bc (length t) (length x) i) [0..<length t])
      else Inl ValueError)"

definition iadd_mat :: "mat \<Rightarrow> mat \<Rightarrow> error + mat" where
  "iadd_mat T X =
     (if bc_ok (length T) (length X) \<and> bc_ok (ncols T) (ncols X)
      then Inr (map (\<lambda>i. map (\<lambda>j. T ! i ! j
                  + X ! bc (length T) (length X) i ! bc (ncols T) (ncols X) j)
                [0..<ncols T]) [0..<length T])
      else Inl ValueError)"

subsection \<open>\<^verbatim>\<open>numpy.linalg\<close>\<close>

text \<open>
  \<^verbatim>\<open>np.linalg.inv\<close> and \<^verbatim>\<open>np.linalg.solve\<close> are library routines, not code of the
  repository. The bandit takes them as a parameter; they either return an array or raise
  (\<open>LinAlgError\<close> on a singular matrix).
\<close>

record linalg =
  linalg_inv :: "mat \<Rightarrow> error + mat"
  linalg_solve :: "mat \<Rightarrow> vec \<Rightarrow> error + vec"

subsection \<open>\<^verbatim>\<open>LinUCBConfig\<close> and \<^verbatim>\<open>LinUCB\<close>\<close>

record LinUCBConfig =
  d :: nat
  lam :: real
  beta0 :: real

record LinUCB = LinUCBConfig +
  A :: mat
  b :: vec

text \<open>\<^verbatim>\<open>LinUCB.__init__\<close>\<close>

definition LinUCB_init :: "LinUCBConfig \<Rightarrow> LinUCB" where
  "LinUCB_init config =
     \<lparr>d = d config, lam = lam config, beta0 = beta0 config,
      A = smult (lam config) (eye (d config)), b = zeros (d config)\<rparr>"

text \<open>\<^verbatim>\<open>LinUCB._theta\<close>\<close>

definition theta :: "linalg \<Rightarrow> LinUCB \<Rightarrow> error + vec" where
  "theta np s = linalg_solve np (A s) (b s)"

text \<open>\<^verbatim>\<open>beta = self.beta0 / np.sqrt(max(1, rnd))\<close>, in exact arithmetic; \<open>beta64\<close>
  below computes it in \<^verbatim>\<open>float64\<close>.\<close>

definition beta :: "LinUCB \<Rightarrow> int \<Rightarrow> real" where
  "beta s rnd = beta0 s / sqrt (of_int (max 1 rnd))"

text \<open>\<^verbatim>\<open>mu = float(theta.T @ x)\<close> and \<^verbatim>\<open>conf = float(np.sqrt(x.T @ A_inv @ x))\<close>, in
  exact arithmetic; \<open>mu32\<close> and \<open>conf32\<close> below compute them in \<^verbatim>\<open>float32\<close>.\<close>

definition mu :: "vec \<Rightarrow> vec \<Rightarrow> error + real" where
  "mu th x = dot th x"

definition conf :: "mat \<Rightarrow> vec \<Rightarrow> error + real" where
  "conf A_inv x =
     (case vec_mat x A_inv of Inl e \<Rightarrow> Inl e
      | Inr y \<Rightarrow> (case dot y x of Inl e \<Rightarrow> Inl e | Inr q \<Rightarrow> Inr (sqrt q)))"

text \<open>\<^verbatim>\<open>itertools.combinations(range(n), 2)\<close>: the pairs \<open>i < j\<close>, in lexicographic
  order.\<close>

definition combinations2 :: "nat \<Rightarrow> (nat \<times> nat) list" where
  "combinations2 n = concat (map (\<lambda>i. map (\<lambda>j. (i, j)) [Suc i..<n]) [0..<n])"

text \<open>The body of the candidate loop for one pair \<open>(i, j)\<close>.\<close>

definition candidate ::
  "real \<Rightarrow> mat \<Rightarrow> vec \<Rightarrow> vec list \<Rightarrow> nat \<times> nat \<Rightarrow> error + (real \<times> nat \<times> nat)" where
  "candidate bet A_inv th profiles p =
     (case p of (i, j) \<Rightarrow>
        let ctx = profiles ! i @ profiles ! j in
        case mu th ctx of Inl e \<Rightarrow> Inl e
        | Inr m \<Rightarrow> (case conf A_inv ctx of Inl e \<Rightarrow> Inl e
                   | Inr c \<Rightarrow> Inr (m + bet * c, i, j)))"

text \<open>The loop itself: the first failing iteration raises.\<close>

fun collect :: "('a \<Rightarrow> error + 'b) \<Rightarrow> 'a list \<Rightarrow> error + 'b list" where
  "collect f [] = Inr []"
| "collect f (x # xs) =
     (case f x of Inl e \<Rightarrow> Inl e
      | Inr y \<Rightarrow> (case collect f xs of Inl e \<Rightarrow> Inl e | Inr ys \<Rightarrow> Inr (y # ys)))"

text \<open>
  \<^verbatim>\<open>candidates.sort(reverse=True)\<close>: CPython reverses the list, sorts it stably in
  ascending order and reverses it again. The elements are the tuples \<open>(ucb, i, j)\<close>,
  compared lexicographically.
\<close>

definition sort_reverse :: "(real \<times> nat \<times> nat) list \<Rightarrow> (real \<times> nat \<times> nat) list" where
  "sort_reverse xs = rev (sort (rev xs))"

text \<open>The greedy walk over the sorted candidates, with \<open>pairs\<close> and \<open>used\<close> as the loop
  state.\<close>

fun greedy ::
  "int \<Rightarrow> (real \<times> nat \<times> nat) list \<Rightarrow> (nat \<times> nat) list \<Rightarrow> nat set \<Rightarrow> (nat \<times> nat) list" where
  "greedy k_pairs [] pairs used = pairs"
| "greedy k_pairs ((ucb, i, j) # cs) pairs used =
     (if i \<notin> used \<and> j \<notin> used \<and> int (length pairs) < k_pairs
      then greedy k_pairs cs (pairs @ [(i, j)]) (used \<union> {i, j})
      else greedy k_pairs cs pairs used)"

text \<open>\<^verbatim>\<open>LinUCB.choose_pairs\<close>\<close>

definition candidates :: "linalg \<Rightarrow> LinUCB \<Rightarrow> vec list \<Rightarrow> int \<Rightarrow> error + (real \<times> nat \<times> nat) list" where
  "candidates np s profiles rnd =
     (case linalg_inv np (A s) of Inl e \<Rightarrow> Inl e
      | Inr A_inv \<Rightarrow>
     (case theta np s of Inl e \<Rightarrow> Inl e
      | Inr th \<Rightarrow>
        collect (candidate (beta s rnd) A_inv th profiles) (combinations2 (length profiles))))"

definition choose_pairs :: "linalg \<Rightarrow> LinUCB \<Rightarrow> vec list \<Rightarrow> int \<Rightarrow> int \<Rightarrow> error + (nat \<times> nat) list" where
  "choose_pairs np s profiles k_pairs rnd =
     (case candidates np s profiles rnd of Inl e \<Rightarrow> Inl e
      | Inr cands \<Rightarrow> Inr (greedy k_pairs (sort_reverse cands) [] {}))"

text \<open>\<^verbatim>\<open>LinUCB.update\<close>: \<^verbatim>\<open>self.A += x @ x.T\<close>, then \<^verbatim>\<open>self.b += r * x\<close> with \<open>r\<close> of
  shape \<open>(1, 1)\<close>, in exact arithmetic; \<open>update32\<close> below is the same with the casts and
  the roundings of \<^verbatim>\<open>float32\<close>.\<close>

definition update :: "LinUCB \<Rightarrow> vec \<Rightarrow> real \<Rightarrow> error + LinUCB" where
  "update s ctx_vec reward =
     (case iadd_mat (A s) (outer ctx_vec ctx_vec) of Inl e \<Rightarrow> Inl e
      | Inr A' \<Rightarrow>
     (case iadd_col (b s) (map ((*) reward) ctx_vec) of Inl e \<Rightarrow> Inl e
      | Inr b' \<Rightarrow> Inr (s\<lparr>A := A', b := b'\<rparr>)))"

text \<open>\<^verbatim>\<open>LinUCB.ucb_score\<close>\<close>

definition ucb_score :: "linalg \<Rightarrow> LinUCB \<Rightarrow> vec \<Rightarrow> int \<Rightarrow> error + real" where
  "ucb_score np s ctx_vec rnd =
     (case theta np s of Inl e \<Rightarrow> Inl e
      | Inr th \<Rightarrow>
     (case linalg_inv np (A s) of Inl e \<Rightarrow> Inl e
      | Inr A_inv \<Rightarrow>
     (case mu th ctx_vec of Inl e \<Rightarrow> Inl e
      | Inr m \<Rightarrow>
     (case conf A_inv ctx_vec of Inl e \<Rightarrow> Inl e
      | Inr c \<Rightarrow> Inr (m + beta s rnd * c)))))"

subsection \<open>Exact linear algebra, as a reference for \<^verbatim>\<open>numpy.linalg\<close>\<close>

text \<open>
  The determinant by Laplace expansion along the first column, on the entries of a
  matrix as a function of the row and column index; \<open>minor_fn i j f\<close> drops row \<open>i\<close>
  and column \<open>j\<close>.
\<close>

definition entries :: "mat \<Rightarrow> nat \<Rightarrow> nat \<Rightarrow> real" where
  "entries M = (\<lambda>i j. M ! i ! j)"

definition minor_fn :: "nat \<Rightarrow> nat \<Rightarrow> (nat \<Rightarrow> nat \<Rightarrow> real) \<Rightarrow> nat \<Rightarrow> nat \<Rightarrow> real" where
  "minor_fn i j f = (\<lambda>r c. f (if r < i then r else Suc r) (if c < j then c else Suc c))"

primrec det_fn :: "nat \<Rightarrow> (nat \<Rightarrow> nat \<Rightarrow> real) \<Rightarrow> real" where
  "det_fn 0 f = 1"
| "det_fn (Suc n) f = (\<Sum>i<Suc n. (- 1) ^ i * f i 0 * det_fn n (minor_fn i 0 f))"

definition det :: "mat \<Rightarrow> real" where
  "det M = det_fn (length M) (entries M)"

definition mat_vec :: "mat \<Rightarrow> vec \<Rightarrow> vec" where
  "mat_vec M v = map (\<lambda>row. sum_list (map2 (*) row v)) M"

text \<open>
  \<open>np_exact\<close> is what \<^verbatim>\<open>np.linalg.inv\<close> and \<^verbatim>\<open>np.linalg.solve\<close> compute in exact
  arithmetic: the inverse by the adjugate formula, \<open>LinAlgError\<close> for a matrix that is
  not square or is singular. It instantiates the \<open>linalg\<close> parameter in the concrete
  scenarios below.
\<close>

definition exact_inv :: "mat \<Rightarrow> error + mat" where
  "exact_inv M =
     (let n = length M in
      if \<not> is_mat n n M then Inl LinAlgError
      else if det M = 0 then Inl LinAlgError
      else Inr (map (\<lambda>i. map (\<lambda>j. (- 1) ^ (i + j) * det_fn (n - 1) (minor_fn j i (entries M)) / det M)
                  [0..<n]) [0..<n]))"

definition exact_solve :: "mat \<Rightarrow> vec \<Rightarrow> error + vec" where
  "exact_solve M v =
     (case exact_inv M of Inl e \<Rightarrow> Inl e
      | Inr Mi \<Rightarrow> if length v = length M then Inr (mat_vec Mi v) else Inl ValueError)"

definition np_exact :: linalg where
  "np_exact = \<lparr>linalg_inv = exact_inv, linalg_solve = exact_solve\<rparr>"

subsection \<open>Notions used to state the properties\<close>

text \<open>The participant indices of a list of pairs, in order.\<close>

definition indices :: "(nat \<times> nat) list \<Rightarrow> nat list" where
  "indices ps = concat (map (\<lambda>(i, j). [i, j]) ps)"



text \<open>The arrays of a bandit state have the shapes that \<^verbatim>\<open>__init__\<close> gives them:
  \<open>A\<close> is \<open>(d, d)\<close> and \<open>b\<close> is \<open>(d, 1)\<close>.\<close>

definition wf_state :: "LinUCB \<Rightarrow> bool" where
  "wf_state s = (is_mat (d s) (d s) (A s) \<and> length (b s) = d s)"

subsection \<open>\<^verbatim>\<open>split_serializer.py\<close>: \<^verbatim>\<open>_alloc_splits\<close>\<close>

text \<open>
  A roster is a JSON object with an optional list \<open>clients\<close>; a client has a key \<open>id\<close>
  (read with \<^verbatim>\<open>c["id"]\<close>, which raises \<open>KeyError\<close> when it is missing) and optional
  integers \<open>train_samples\<close> and \<open>val_samples\<close> (read with \<^verbatim>\<open>c.get(key, 0)\<close>).
\<close>

record client =
  client_id :: "string option"
  train_samples :: "int option"
  val_samples :: "int option"

record roster =
  clients :: "client list option"

definition roster_clients :: "roster \<Rightarrow> client list" where
  "roster_clients r = (case clients r of None \<Rightarrow> [] | Some cs \<Rightarrow> cs)"

definition quota :: "(client \<Rightarrow> int option) \<Rightarrow> client \<Rightarrow> int" where
  "quota key c = (case key c of None \<Rightarrow> 0 | Some n \<Rightarrow> n)"

text \<open>Python's slice \<^verbatim>\<open>xs[start:stop]\<close>: a negative index counts from the end, and
  both are clamped to the list.\<close>

definition slice_index :: "nat \<Rightarrow> int \<Rightarrow> nat" where
  "slice_index len i = (if i < 0 then nat (max 0 (int len + i)) else min len (nat i))"

definition py_slice :: "'a list \<Rightarrow> int \<Rightarrow> int \<Rightarrow> 'a list" where
  "py_slice xs start stop =
     (let lo = slice_index (length xs) start; hi = slice_index (length xs) stop
      in take (hi - lo) (drop lo xs))"

text \<open>The two allocation loops (train, then val) differ in the key they read only:
  \<^verbatim>\<open>splits[cid] = pool[cursor : cursor + n]; cursor += n\<close>.\<close>

fun alloc_loop ::
  "(client \<Rightarrow> int option) \<Rightarrow> string list \<Rightarrow> client list \<Rightarrow> (string \<rightharpoonup> string list) \<Rightarrow> int
     \<Rightarrow> error + (string \<rightharpoonup> string list) \<times> int" where
  "alloc_loop key pool [] splits cursor = Inr (splits, cursor)"
| "alloc_loop key pool (c # cs) splits cursor =
     (case client_id c of None \<Rightarrow> Inl KeyError
      | Some cid \<Rightarrow>
          let n = quota key c
          in alloc_loop key pool cs (splits(cid \<mapsto> py_slice pool cursor (cursor + n))) (cursor + n))"

text \<open>
  \<^verbatim>\<open>_alloc_splits\<close>. The shuffle of numpy's generator (\<^verbatim>\<open>np.random.default_rng(seed)\<close>,
  then \<^verbatim>\<open>rng.shuffle(pool)\<close>) is library code, taken as the parameter \<open>shuffle\<close>.
\<close>

definition alloc_splits ::
  "(int \<Rightarrow> string list \<Rightarrow> string list) \<Rightarrow> string list \<Rightarrow> roster \<Rightarrow> int \<Rightarrow> int
     \<Rightarrow> error + (string \<rightharpoonup> string list) \<times> (string \<rightharpoonup> string list) \<times> string list" where
  "alloc_splits shuffle combined_ids r seed global_test_size =
     (let pool = shuffle seed combined_ids;
          req_train = sum_list (map (quota train_samples) (roster_clients r));
          req_val = sum_list (map (quota val_samples) (roster_clients r));
          req_total = req_train + req_val + global_test_size
      in if int (length pool) < req_total then Inl RuntimeError
         else
           (case alloc_loop train_samples pool (roster_clients r) Map.empty 0 of Inl e \<Rightarrow> Inl e
            | Inr (train_splits, cursor) \<Rightarrow>
           (case alloc_loop val_samples pool (roster_clients r) Map.empty cursor of Inl e \<Rightarrow> Inl e
            | Inr (val_splits, cursor') \<Rightarrow>
                Inr (train_splits, val_splits, py_slice pool cursor' (cursor' + global_test_size)))))"

text \<open>The identifiers a client received, and all identifiers handed out, in order.\<close>

definition split_of :: "(string \<rightharpoonup> string list) \<Rightarrow> client \<Rightarrow> string list" where
  "split_of splits c =
     (case client_id c of None \<Rightarrow> []
      | Some cid \<Rightarrow> (case splits cid of None \<Rightarrow> [] | Some ids \<Rightarrow> ids))"

definition all_assigned ::
  "(string \<rightharpoonup> string list) \<Rightarrow> (string \<rightharpoonup> string list) \<Rightarrow> string list \<Rightarrow> client list \<Rightarrow> string list" where
  "all_assigned train_splits val_splits test_ids cs =
     concat (map (split_of train_splits) cs) @ concat (map (split_of val_splits) cs) @ test_ids"

text \<open>The deduplication loop at the end of \<^verbatim>\<open>_combine_with_ids\<close>, on items whose
  \<^verbatim>\<open>__id\<close> is read by \<open>item_id\<close>.\<close>

fun uniq_loop :: "('a \<Rightarrow> string) \<Rightarrow> 'a list \<Rightarrow> string set \<Rightarrow> 'a list \<Rightarrow> 'a list" where
  "uniq_loop item_id [] seen uniq = uniq"
| "uniq_loop item_id (x # xs) seen uniq =
     (if item_id x \<in> seen then uniq_loop item_id xs seen uniq
      else uniq_loop item_id xs (insert (item_id x) seen) (uniq @ [x]))"

subsection \<open>Positive definiteness and sequences of updates\<close>

text \<open>
  The quadratic form \<open>x\<^sup>T M x\<close> of an \<open>n \<times> n\<close> matrix given by its entries, and
  positive definiteness: the matrix is symmetric and the form is positive on every
  vector that is not zero.
\<close>

definition quad_fn :: "nat \<Rightarrow> (nat \<Rightarrow> nat \<Rightarrow> real) \<Rightarrow> (nat \<Rightarrow> real) \<Rightarrow> real" where
  "quad_fn n f x = (\<Sum>i<n. \<Sum>j<n. x i * f i j * x j)"

definition pd_fn :: "nat \<Rightarrow> (nat \<Rightarrow> nat \<Rightarrow> real) \<Rightarrow> bool" where
  "pd_fn n f = ((\<forall>i<n. \<forall>j<n. f i j = f j i) \<and> (\<forall>x. (\<exists>i<n. x i \<noteq> 0) \<longrightarrow> 0 < quad_fn n f x))"

definition pos_def :: "mat \<Rightarrow> bool" where
  "pos_def M = (is_mat (length M) (length M) M \<and> pd_fn (length M) (entries M))"

text \<open>The matrix product, to state what an inverse is.\<close>

definition mat_mul :: "mat \<Rightarrow> mat \<Rightarrow> mat" where
  "mat_mul M N = map (\<lambda>row. map (\<lambda>k. sum_list (map2 (*) row (map (\<lambda>r. r ! k) N))) [0..<ncols N]) M"


subsection \<open>The Schur complement\<close>



subsection \<open>Floating-point numbers\<close>

text \<open>
  The arrays of the bandit are \<^verbatim>\<open>float32\<close> and its scores are Python floats
  (\<^verbatim>\<open>float64\<close>). A floating-point value is a real number, or \<open>None\<close> for a value that
  is not a finite number (an infinity or a NaN); the two zeros are not told apart.

  \<open>rne\<close> rounds a real to the nearest integer, a tie to the even one. \<open>expo emin emax x\<close>
  is the exponent of the binade of \<open>x\<close> in a format with exponents from \<open>emin\<close> to \<open>emax\<close>
  (\<open>emin\<close> for the subnormal numbers), and \<open>fround p emin emax x\<close> rounds \<open>x\<close> to the
  nearest number of the format with \<open>p\<close> significant bits, a tie to the even significand;
  a result beyond the largest number of the format is an infinity.
\<close>

type_synonym fl = "real option"

definition rne :: "real \<Rightarrow> int" where
  "rne x =
     (let f = \<lfloor>x\<rfloor>; r = x - of_int f
      in if r < 1/2 then f else if 1/2 < r then f + 1 else if even f then f else f + 1)"

definition expo :: "int \<Rightarrow> int \<Rightarrow> real \<Rightarrow> int option" where
  "expo emin emax x = find (\<lambda>e. \<bar>x\<bar> < 2 powi (e + 1)) [emin..emax]"

definition fround :: "nat \<Rightarrow> int \<Rightarrow> int \<Rightarrow> real \<Rightarrow> fl" where
  "fround p emin emax x =
     (case expo emin emax x of None \<Rightarrow> None
      | Some e \<Rightarrow>
          let ulp = 2 powi (e + 1 - int p); y = of_int (rne (x / ulp)) * ulp
          in if \<bar>y\<bar> < 2 powi (emax + 1) then Some y else None)"

text \<open>IEEE 754 binary32 and binary64.\<close>

definition f32 :: "real \<Rightarrow> fl" where
  "f32 = fround 24 (- 126) 127"

definition f64 :: "real \<Rightarrow> fl" where
  "f64 = fround 53 (- 1022) 1023"

text \<open>
  An arithmetic operation computes the exact result of its operands and rounds it; a
  value that is not a finite number gives one that is not. The division by zero gives
  an infinity or a NaN; the source divides by the square root of an integer only, which
  is finite. The square root of a negative number is a NaN.
\<close>

definition fl2 :: "(real \<Rightarrow> fl) \<Rightarrow> (real \<Rightarrow> real \<Rightarrow> real) \<Rightarrow> fl \<Rightarrow> fl \<Rightarrow> fl" where
  "fl2 rd opr a c =
     (case a of None \<Rightarrow> None | Some x \<Rightarrow> (case c of None \<Rightarrow> None | Some y \<Rightarrow> rd (opr x y)))"

definition fadd32 :: "fl \<Rightarrow> fl \<Rightarrow> fl" where
  "fadd32 = fl2 f32 (+)"

definition fmul32 :: "fl \<Rightarrow> fl \<Rightarrow> fl" where
  "fmul32 = fl2 f32 (*)"

definition fadd64 :: "fl \<Rightarrow> fl \<Rightarrow> fl" where
  "fadd64 = fl2 f64 (+)"

definition fmul64 :: "fl \<Rightarrow> fl \<Rightarrow> fl" where
  "fmul64 = fl2 f64 (*)"

definition fdiv64 :: "fl \<Rightarrow> fl \<Rightarrow> fl" where
  "fdiv64 u v =
     (case u of None \<Rightarrow> None
      | Some x \<Rightarrow> (case v of None \<Rightarrow> None | Some y \<Rightarrow> if y = 0 then None else f64 (x / y)))"

definition fsqrt :: "(real \<Rightarrow> fl) \<Rightarrow> fl \<Rightarrow> fl" where
  "fsqrt rd u = (case u of None \<Rightarrow> None | Some x \<Rightarrow> if x < 0 then None else rd (sqrt x))"

subsection \<open>The bandit in float32\<close>

text \<open>
  The state and the arithmetic of \<^verbatim>\<open>LinUCB\<close> as the source computes them: \<open>A\<close> and \<open>b\<close>
  are \<^verbatim>\<open>float32\<close> arrays, the context vector and the reward are cast to \<^verbatim>\<open>float32\<close>,
  and every product and every sum is rounded. The real numbers of the configuration and
  of the arguments stand for the Python numbers that are passed. The shapes follow the
  same rules as above.
\<close>

type_synonym fvec = "fl list"
type_synonym fmat = "fl list list"

definition is_fmat :: "nat \<Rightarrow> nat \<Rightarrow> fmat \<Rightarrow> bool" where
  "is_fmat r c M = (length M = r \<and> list_all (\<lambda>row. length row = c) M)"

definition fcols :: "fmat \<Rightarrow> nat" where
  "fcols M = (case M of [] \<Rightarrow> 0 | row # _ \<Rightarrow> length row)"

record LinUCB32 = LinUCBConfig +
  A32 :: fmat
  b32 :: fvec








text \<open>
  \<^verbatim>\<open>beta = self.beta0 / np.sqrt(max(1, rnd))\<close>: numpy converts the integer to
  \<^verbatim>\<open>float64\<close> and takes the square root in \<^verbatim>\<open>float64\<close>; the quotient is a \<^verbatim>\<open>float64\<close>.
  An integer from \<open>2\<^sup>6\<^sup>4\<close> on has no numpy integer type and \<^verbatim>\<open>np.sqrt\<close> raises
  \<open>TypeError\<close>.
\<close>

definition beta64 :: "LinUCB32 \<Rightarrow> int \<Rightarrow> error + fl" where
  "beta64 s rnd =
     (let m = max 1 rnd in
      if 2 ^ 64 \<le> m then Inl TypeError
      else Inr (fdiv64 (f64 (beta0 s)) (fsqrt f64 (f64 (of_int m)))))"

text \<open>
  The matrix products of \<^verbatim>\<open>float32\<close> arrays. The sum of a product is accumulated from
  left to right, every product and every partial sum rounded to \<^verbatim>\<open>float32\<close>.
\<close>

definition fsum32 :: "fvec \<Rightarrow> fl" where
  "fsum32 xs = foldl fadd32 (Some 0) xs"

definition dot32 :: "fvec \<Rightarrow> fvec \<Rightarrow> error + fl" where
  "dot32 u v = (if length u = length v then Inr (fsum32 (map2 fmul32 u v)) else Inl ValueError)"

definition vec_mat32 :: "fvec \<Rightarrow> fmat \<Rightarrow> error + fvec" where
  "vec_mat32 x M =
     (if is_fmat (length x) (fcols M) M
      then Inr (map (\<lambda>j. fsum32 (map2 fmul32 x (map (\<lambda>row. row ! j) M))) [0..<fcols M])
      else Inl ValueError)"

text \<open>\<^verbatim>\<open>mu = float(theta.T @ x)\<close> and \<^verbatim>\<open>conf = float(np.sqrt(x.T @ A_inv @ x))\<close>, both
  computed in \<^verbatim>\<open>float32\<close>; \<^verbatim>\<open>float\<close> converts without rounding.\<close>

definition mu32 :: "fvec \<Rightarrow> fvec \<Rightarrow> error + fl" where
  "mu32 th x = dot32 th x"

definition conf32 :: "fmat \<Rightarrow> fvec \<Rightarrow> error + fl" where
  "conf32 A_inv x =
     (case vec_mat32 x A_inv of Inl e \<Rightarrow> Inl e
      | Inr y \<Rightarrow> (case dot32 y x of Inl e \<Rightarrow> Inl e | Inr q \<Rightarrow> Inr (fsqrt f32 q)))"

text \<open>\<^verbatim>\<open>np.linalg.inv\<close> and \<^verbatim>\<open>np.linalg.solve\<close> on \<^verbatim>\<open>float32\<close> arrays, again a
  parameter.\<close>

record linalg32 =
  linalg32_inv :: "fmat \<Rightarrow> error + fmat"
  linalg32_solve :: "fmat \<Rightarrow> fvec \<Rightarrow> error + fvec"

text \<open>
  The body of the candidate loop for one pair \<open>(i, j)\<close>, with
  \<^verbatim>\<open>ctx = np.concatenate([profiles[i], profiles[j]]).astype(np.float32)\<close>; the score
  \<^verbatim>\<open>mu + beta * conf\<close> is a \<^verbatim>\<open>float64\<close> product and sum.
\<close>

definition candidate32 ::
  "fl \<Rightarrow> fmat \<Rightarrow> fvec \<Rightarrow> vec list \<Rightarrow> nat \<times> nat \<Rightarrow> error + (fl \<times> nat \<times> nat)" where
  "candidate32 bet A_inv th profiles p =
     (case p of (i, j) \<Rightarrow>
        let ctx = map f32 (profiles ! i @ profiles ! j) in
        case mu32 th ctx of Inl e \<Rightarrow> Inl e
        | Inr m \<Rightarrow> (case conf32 A_inv ctx of Inl e \<Rightarrow> Inl e
                   | Inr c \<Rightarrow> Inr (fadd64 m (fmul64 bet c), i, j)))"

text \<open>The candidates of \<^verbatim>\<open>LinUCB.choose_pairs\<close>, before they are sorted: \<open>beta\<close> first,
  then the inverse, \<open>theta\<close> and the loop.\<close>

definition candidates32 ::
  "linalg32 \<Rightarrow> LinUCB32 \<Rightarrow> vec list \<Rightarrow> int \<Rightarrow> error + (fl \<times> nat \<times> nat) list" where
  "candidates32 np s profiles rnd =
     (case beta64 s rnd of Inl e \<Rightarrow> Inl e
      | Inr bet \<Rightarrow>
     (case linalg32_inv np (A32 s) of Inl e \<Rightarrow> Inl e
      | Inr A_inv \<Rightarrow>
     (case linalg32_solve np (A32 s) (b32 s) of Inl e \<Rightarrow> Inl e
      | Inr th \<Rightarrow>
        collect (candidate32 bet A_inv th profiles) (combinations2 (length profiles)))))"




section \<open>Properties of the pair selection\<close>

lemma indices_append: "indices (ps @ [(i, j)]) = indices ps @ [i, j]"
  by (simp add: indices_def)

lemma length_indices: "length (indices ps) = 2 * length ps"
  by (induction ps) (auto simp: indices_def)

lemma greedy_length_mono: "length pairs \<le> length (greedy k cs pairs used)"
proof (induction k cs pairs used rule: greedy.induct)
  case (1 k pairs used)
  then show ?case by simp
next
  case (2 k ucb i j cs pairs used)
  then show ?case by (cases "i \<notin> used \<and> j \<notin> used \<and> int (length pairs) < k") auto
qed

lemma greedy_inv:
  assumes "used = set (indices pairs)" "distinct (indices pairs)"
    and "\<forall>c \<in> set cs. fst (snd c) \<noteq> snd (snd c) \<and> fst (snd c) < n \<and> snd (snd c) < n"
    and "set (indices pairs) \<subseteq> {..<n}" "int (length pairs) \<le> max 0 k"
  shows "distinct (indices (greedy k cs pairs used))
       \<and> set (indices (greedy k cs pairs used)) \<subseteq> {..<n}
       \<and> int (length (greedy k cs pairs used)) \<le> max 0 k
       \<and> set (indices pairs) \<subseteq> set (indices (greedy k cs pairs used))
       \<and> (k \<le> int (length (greedy k cs pairs used))
          \<or> (\<forall>c \<in> set cs. fst (snd c) \<in> set (indices (greedy k cs pairs used))
                           \<or> snd (snd c) \<in> set (indices (greedy k cs pairs used))))"
  using assms
proof (induction k cs pairs used rule: greedy.induct)
  case (1 k pairs used)
  then show ?case by simp
next
  case (2 k ucb i j cs pairs used)
  show ?case
  proof (cases "i \<notin> used \<and> j \<notin> used \<and> int (length pairs) < k")
    case True
    let ?p = "pairs @ [(i, j)]" and ?u = "used \<union> {i, j}"
    have ij: "i \<noteq> j" "i < n" "j < n" using "2.prems"(3) by auto
    have a1: "?u = set (indices ?p)" using "2.prems"(1) by (auto simp: indices_append)
    have a2: "distinct (indices ?p)" using "2.prems"(1,2) True ij by (auto simp: indices_append)
    have a3: "\<forall>c \<in> set cs. fst (snd c) \<noteq> snd (snd c) \<and> fst (snd c) < n \<and> snd (snd c) < n"
      using "2.prems"(3) by simp
    have a4: "set (indices ?p) \<subseteq> {..<n}" using "2.prems"(4) ij by (auto simp: indices_append)
    have a5: "int (length ?p) \<le> max 0 k" using True by simp
    note IH = "2.IH"(1)[OF True a1 a2 a3 a4 a5]
    have g: "greedy k ((ucb, i, j) # cs) pairs used = greedy k cs ?p ?u" using True by simp
    have sub: "set (indices ?p) \<subseteq> set (indices (greedy k cs ?p ?u))" using IH by blast
    then have "i \<in> set (indices (greedy k cs ?p ?u))" by (auto simp: indices_append)
    moreover have "set (indices pairs) \<subseteq> set (indices (greedy k cs ?p ?u))"
      using sub by (auto simp: indices_append)
    ultimately show ?thesis unfolding g using IH by auto
  next
    case False
    note IH = "2.IH"(2)[OF False "2.prems"(1,2) _ "2.prems"(4,5)]
    have a3: "\<forall>c \<in> set cs. fst (snd c) \<noteq> snd (snd c) \<and> fst (snd c) < n \<and> snd (snd c) < n"
      using "2.prems"(3) by simp
    have g: "greedy k ((ucb, i, j) # cs) pairs used = greedy k cs pairs used" using False by auto
    let ?r = "greedy k cs pairs used"
    have blocked: "k \<le> int (length ?r) \<or> i \<in> set (indices ?r) \<or> j \<in> set (indices ?r)"
    proof -
      from False have "i \<in> used \<or> j \<in> used \<or> k \<le> int (length pairs)" by auto
      then show ?thesis
      proof (elim disjE)
        assume "k \<le> int (length pairs)"
        then show ?thesis using greedy_length_mono[of pairs k cs used] by linarith
      qed (use IH[OF a3] "2.prems"(1) in auto)
    qed
    show ?thesis unfolding g using IH[OF a3] blocked by auto
  qed
qed


lemma set_combinations2: "set (combinations2 n) = {(i, j). i < j \<and> j < n}"
proof -
  have "(a, c) \<in> set (combinations2 n) \<longleftrightarrow> a < c \<and> c < n" for a c
    unfolding combinations2_def by (auto simp: image_iff)
  then show ?thesis by auto
qed

lemma candidate_snd: "candidate bet Ai th P p = Inr c \<Longrightarrow> snd c = p"
  by (auto simp: candidate_def Let_def split: prod.splits sum.splits)

lemma collect_snd:
  assumes "collect f xs = Inr ys" and "\<And>x y. f x = Inr y \<Longrightarrow> snd y = x"
  shows "map snd ys = xs"
  using assms
proof (induction xs arbitrary: ys)
  case Nil
  then show ?case by simp
next
  case (Cons x xs)
  then show ?case by (auto split: sum.splits)
qed

lemma collect_returns:
  assumes "\<And>x. x \<in> set xs \<Longrightarrow> \<exists>y. f x = Inr y"
  shows "\<exists>ys. collect f xs = Inr ys"
  using assms
proof (induction xs)
  case Nil
  then show ?case by simp
next
  case (Cons x xs)
  then obtain y where "f x = Inr y" by fastforce
  moreover obtain ys where "collect f xs = Inr ys" using Cons by fastforce
  ultimately show ?case by simp
qed

lemma candidates_snd:
  "candidates np s P rnd = Inr cs \<Longrightarrow> map snd cs = combinations2 (length P)"
  unfolding candidates_def
  by (auto split: sum.splits intro: collect_snd candidate_snd)

lemma set_sort_reverse: "set (sort_reverse cs) = set cs"
  by (simp add: sort_reverse_def)

lemma sorted_candidates_props:
  assumes "candidates np s P rnd = Inr cs"
  shows "snd ` set (sort_reverse cs) = {(i, j). i < j \<and> j < length P}"
proof -
  have "snd ` set cs = set (map snd cs)" by simp
  also have "\<dots> = {(i, j). i < j \<and> j < length P}"
    using candidates_snd[OF assms] by (simp add: set_combinations2)
  finally show ?thesis by (simp add: set_sort_reverse)
qed

lemma choose_pairs_props:
  assumes "choose_pairs np s P k rnd = Inr ps"
  shows "distinct (indices ps)" and "set (indices ps) \<subseteq> {..<length P}"
    and "int (length ps) \<le> max 0 k"
    and "k \<le> int (length ps) \<or> (\<forall>i j. i < j \<and> j < length P \<longrightarrow> i \<in> set (indices ps) \<or> j \<in> set (indices ps))"
proof -
  from assms obtain cs where cs: "candidates np s P rnd = Inr cs"
    and ps: "ps = greedy k (sort_reverse cs) [] {}"
    by (auto simp: choose_pairs_def split: sum.splits)
  let ?ss = "sort_reverse cs"
  have img: "snd ` set ?ss = {(i, j). i < j \<and> j < length P}" by (rule sorted_candidates_props[OF cs])
  have c3: "\<forall>c \<in> set ?ss. fst (snd c) \<noteq> snd (snd c) \<and> fst (snd c) < length P \<and> snd (snd c) < length P"
  proof
    fix c assume "c \<in> set ?ss"
    then have "snd c \<in> snd ` set ?ss" by (rule imageI)
    then have "snd c \<in> {(i, j). i < j \<and> j < length P}" unfolding img .
    then show "fst (snd c) \<noteq> snd (snd c) \<and> fst (snd c) < length P \<and> snd (snd c) < length P"
      by (cases "snd c") auto
  qed
  have inv: "distinct (indices ps) \<and> set (indices ps) \<subseteq> {..<length P}
       \<and> int (length ps) \<le> max 0 k \<and> set (indices []) \<subseteq> set (indices ps)
       \<and> (k \<le> int (length ps) \<or> (\<forall>c \<in> set ?ss. fst (snd c) \<in> set (indices ps) \<or> snd (snd c) \<in> set (indices ps)))"
    unfolding ps
  proof (rule greedy_inv[where n = "length P"])
    show "{} = set (indices [])" by (simp add: indices_def)
    show "distinct (indices [])" by (simp add: indices_def)
    show "\<forall>c \<in> set ?ss. fst (snd c) \<noteq> snd (snd c) \<and> fst (snd c) < length P \<and> snd (snd c) < length P"
      by (rule c3)
    show "set (indices []) \<subseteq> {..<length P}" by (simp add: indices_def)
    show "int (length ([] :: (nat \<times> nat) list)) \<le> max 0 k" by simp
  qed
  show "distinct (indices ps)" "set (indices ps) \<subseteq> {..<length P}" "int (length ps) \<le> max 0 k"
    using inv by blast+
  show "k \<le> int (length ps) \<or> (\<forall>i j. i < j \<and> j < length P \<longrightarrow> i \<in> set (indices ps) \<or> j \<in> set (indices ps))"
  proof (cases "k \<le> int (length ps)")
    case True
    then show ?thesis by simp
  next
    case False
    with inv have all: "\<forall>c \<in> set ?ss. fst (snd c) \<in> set (indices ps) \<or> snd (snd c) \<in> set (indices ps)" by blast
    have "i \<in> set (indices ps) \<or> j \<in> set (indices ps)" if "i < j \<and> j < length P" for i j
    proof -
      from that have "(i, j) \<in> {(i, j). i < j \<and> j < length P}" by simp
      then have "(i, j) \<in> snd ` set ?ss" unfolding img .
      then obtain c where "c \<in> set ?ss" "snd c = (i, j)" by auto
      with all show ?thesis by fastforce
    qed
    then show ?thesis by blast
  qed
qed

lemma choose_pairs_half:
  assumes "choose_pairs np s P k rnd = Inr ps"
  shows "length ps \<le> length P div 2"
proof -
  have "card (set (indices ps)) \<le> card {..<length P}"
    by (rule card_mono) (use choose_pairs_props(2)[OF assms] in auto)
  moreover have "card (set (indices ps)) = 2 * length ps"
    using choose_pairs_props(1)[OF assms] by (simp add: distinct_card length_indices)
  ultimately show ?thesis by simp
qed

lemma choose_pairs_exact:
  assumes "choose_pairs np s P k rnd = Inr ps" "0 \<le> k"
  shows "int (length ps) = min k (int (length P div 2))"
proof (cases "k \<le> int (length ps)")
  case True
  then show ?thesis using choose_pairs_props(3)[OF assms(1)] choose_pairs_half[OF assms(1)] assms(2)
    by linarith
next
  case False
  let ?U = "set (indices ps)"
  from False choose_pairs_props(4)[OF assms(1)]
  have all: "\<And>i j. i < j \<Longrightarrow> j < length P \<Longrightarrow> i \<in> ?U \<or> j \<in> ?U" by blast
  have "\<forall>x \<in> {..<length P} - ?U. \<forall>y \<in> {..<length P} - ?U. x = y"
  proof (intro ballI)
    fix x y assume "x \<in> {..<length P} - ?U" "y \<in> {..<length P} - ?U"
    then show "x = y" using all[of x y] all[of y x] by (cases x y rule: linorder_cases) auto
  qed
  then have "card ({..<length P} - ?U) \<le> 1"
    using card_le_Suc0_iff_eq[of "{..<length P} - ?U"] by simp
  moreover have "card ({..<length P} - ?U) = length P - card ?U"
    using choose_pairs_props(2)[OF assms(1)] by (simp add: card_Diff_subset)
  moreover have "card ?U = 2 * length ps"
    using choose_pairs_props(1)[OF assms(1)] by (simp add: distinct_card length_indices)
  ultimately have "length P - 2 * length ps \<le> 1" by simp
  then have "length P div 2 \<le> length ps" by linarith
  then show ?thesis using choose_pairs_half[OF assms(1)] False by linarith
qed

lemma ncols_is_mat: "is_mat n n M \<Longrightarrow> ncols M = n"
  by (cases M) (auto simp: is_mat_def ncols_def)

lemma conf_returns:
  assumes "is_mat (length x) (length x) Ai"
  shows "\<exists>c. conf Ai x = Inr c"
  using assms ncols_is_mat[OF assms]
  by (simp add: conf_def vec_mat_def dot_def)

lemma candidate_returns:
  assumes "is_mat D D Ai" "length th = D" "length (P ! i) + length (P ! j) = D"
  shows "\<exists>c. candidate bet Ai th P (i, j) = Inr c"
proof -
  let ?ctx = "P ! i @ P ! j"
  have len: "length ?ctx = D" using assms(3) by simp
  have "\<exists>m. mu th ?ctx = Inr m" using assms(2) len by (simp add: mu_def dot_def)
  moreover have "\<exists>c. conf Ai ?ctx = Inr c" using conf_returns[of ?ctx Ai] assms(1) len by simp
  ultimately show ?thesis by (auto simp: candidate_def Let_def)
qed

lemma candidates_returns:
  assumes "linalg_inv np (A s) = Inr Ai" "is_mat D D Ai"
    and "linalg_solve np (A s) (b s) = Inr th" "length th = D"
    and "\<forall>p \<in> set P. 2 * length p = D"
  shows "\<exists>cs. candidates np s P rnd = Inr cs"
proof -
  have "\<exists>c. candidate (beta s rnd) Ai th P p = Inr c" if "p \<in> set (combinations2 (length P))" for p
  proof -
    obtain i j where p: "p = (i, j)" by (cases p)
    with that have ij: "i < j" "j < length P" by (auto simp: set_combinations2)
    then have "2 * length (P ! i) = D" "2 * length (P ! j) = D" using assms(5) by auto
    then have "length (P ! i) + length (P ! j) = D" by simp
    then show ?thesis unfolding p by (rule candidate_returns[OF assms(2,4)])
  qed
  then have "\<exists>cs. collect (candidate (beta s rnd) Ai th P) (combinations2 (length P)) = Inr cs"
    by (rule collect_returns)
  then show ?thesis by (simp add: candidates_def theta_def assms(1,3))
qed

lemma choose_pairs_returns:
  assumes "linalg_inv np (A s) = Inr Ai" "is_mat D D Ai"
    and "linalg_solve np (A s) (b s) = Inr th" "length th = D"
    and "\<forall>p \<in> set P. 2 * length p = D"
  shows "\<exists>ps. choose_pairs np s P k rnd = Inr ps"
proof -
  obtain cs where "candidates np s P rnd = Inr cs" using candidates_returns[OF assms] by blast
  then show ?thesis by (simp add: choose_pairs_def)
qed






lemma replicate_eq_2: "replicate 2 x = [x, x]"
  by (simp add: numeral_2_eq_2)

lemma upt2: "[0..<2] = [0, Suc 0]"
  by (simp add: numeral_2_eq_2)

lemma eye2: "smult 1 (eye 2) = [[1, 0], [0, 1]]"
  by (simp add: smult_def eye_def upt2)

lemma det_I2: "det [[1, 0], [0, 1]] = 1"
  by (simp add: det_def numeral_2_eq_2 entries_def minor_fn_def)

lemma exact_inv_I2: "exact_inv [[1, 0], [0, 1]] = Inr [[1, 0], [0, 1]]"
  by (simp add: exact_inv_def det_I2 is_mat_def upt2 Let_def entries_def minor_fn_def)

lemma exact_solve_I2: "exact_solve [[1, 0], [0, 1]] [0, 0] = Inr [0, 0]"
  by (simp add: exact_solve_def exact_inv_I2 mat_vec_def)

lemma comb3: "combinations2 (Suc (Suc (Suc 0))) = [(0, 1), (0, 2), (1, 2)]"
  by (simp add: combinations2_def eval_nat_numeral upt_rec)

lemma scenario_state:
  "A (LinUCB_init \<lparr>d = 2, lam = 1, beta0 = 1\<rparr>) = [[1, 0], [0, 1]]" "b (LinUCB_init \<lparr>d = 2, lam = 1, beta0 = 1\<rparr>) = [0, 0]" "beta0 (LinUCB_init \<lparr>d = 2, lam = 1, beta0 = 1\<rparr>) = 1" "d (LinUCB_init \<lparr>d = 2, lam = 1, beta0 = 1\<rparr>) = 2"
  by (simp_all add: LinUCB_init_def eye2 zeros_def replicate_eq_2)



lemma cands_c8: "candidates np_exact (LinUCB_init \<lparr>d = 2, lam = 1, beta0 = 1\<rparr>) [[1], [0], [1/2]] 1 = Inr [(1, 0, 1), (sqrt (5/4), 0, 2), (1/2, 1, 2)]"
  by (simp add: candidates_def np_exact_def scenario_state exact_inv_I2 theta_def exact_solve_I2 comb3
      candidate_def mu_def dot_def conf_def vec_mat_def is_mat_def ncols_def upt2 beta_def real_sqrt_divide)

lemma choose_c8: "choose_pairs np_exact (LinUCB_init \<lparr>d = 2, lam = 1, beta0 = 1\<rparr>) [[1], [0], [1/2]] 1 1 = Inr [(0, 2)]"
  by (simp add: choose_pairs_def cands_c8 sort_reverse_def less_eq_prod_def)


lemma comb4: "combinations2 (Suc (Suc (Suc (Suc 0)))) = [(0, 1), (0, 2), (0, 3), (1, 2), (1, 3), (2, 3)]"
  by (simp add: combinations2_def eval_nat_numeral upt_rec)

lemma cands_4: "candidates np_exact (LinUCB_init \<lparr>d = 2, lam = 1, beta0 = 1\<rparr>) [[3], [4], [0], [0]] 1
   = Inr [(sqrt 25, 0, 1), (sqrt 9, 0, 2), (sqrt 9, 0, 3), (sqrt 16, 1, 2), (sqrt 16, 1, 3), (0, 2, 3)]"
  by (simp add: candidates_def np_exact_def scenario_state exact_inv_I2 theta_def exact_solve_I2 comb4
      candidate_def mu_def dot_def conf_def vec_mat_def is_mat_def ncols_def upt2 beta_def)

lemma choose_4: "choose_pairs np_exact (LinUCB_init \<lparr>d = 2, lam = 1, beta0 = 1\<rparr>) [[3], [4], [0], [0]] 2 1 = Inr [(0, 1), (2, 3)]"
  by (simp add: choose_pairs_def cands_4 sort_reverse_def less_eq_prod_def)

lemma choose_4_k3:
  "choose_pairs np_exact (LinUCB_init \<lparr>d = 2, lam = 1, beta0 = 1\<rparr>) [[3], [4], [0], [0]] 3 1
     = Inr [(0, 1), (2, 3)]"
  by (simp add: choose_pairs_def cands_4 sort_reverse_def less_eq_prod_def)

lemma scenario_linalg:
  "linalg_inv np_exact (A (LinUCB_init \<lparr>d = 2, lam = 1, beta0 = 1\<rparr>)) = Inr [[1, 0], [0, 1]]"
  "linalg_solve np_exact (A (LinUCB_init \<lparr>d = 2, lam = 1, beta0 = 1\<rparr>))
        (b (LinUCB_init \<lparr>d = 2, lam = 1, beta0 = 1\<rparr>)) = Inr [0, 0]"
  by (simp_all add: np_exact_def scenario_state exact_inv_I2 exact_solve_I2)

section \<open>The claims about the pair selection\<close>




text \<open>
  Claim C3: whenever \<open>choose_pairs\<close> returns, no participant index occurs twice among
  the returned pairs, and the number of pairs is at most \<open>k_pairs\<close> (a count, so not
  negative) and at most half the number of contexts, rounded down.
\<close>

theorem choose_pairs_disjoint_bounded:
  assumes "choose_pairs np s profiles k_pairs rnd = Inr pairs" and "0 \<le> k_pairs"
  shows "distinct (indices pairs) \<and> int (length pairs) \<le> k_pairs
     \<and> length pairs \<le> length profiles div 2"
  using choose_pairs_props(1,3)[OF assms(1)] choose_pairs_half[OF assms(1)] assms(2) by simp

theorem choose_pairs_disjoint_bounded_witness:
  "choose_pairs np_exact (LinUCB_init \<lparr>d = 2, lam = 1, beta0 = 1\<rparr>) [[3], [4], [0], [0]] 2 1
     = Inr [(0, 1), (2, 3)]
   \<and> (0::int) \<le> 2
   \<and> distinct (indices [(0, 1), (2, 3)]) \<and> int (length [(0::nat, 1::nat), (2, 3)]) \<le> 2
   \<and> length [(0::nat, 1::nat), (2, 3)] \<le> length [[3], [4], [0], [0::real]] div 2"
  using choose_pairs_disjoint_bounded[OF choose_4] choose_4 by simp

text \<open>
  Claim C8: the scenario with one feature per participant (\<open>d = 2\<close>), \<open>\<lambda> = 1\<close>,
  \<open>\<beta>\<^sub>0 = 1\<close>, the initial state, contexts \<open>[[1], [0], [1/2]]\<close>, \<open>k_pairs = 1\<close> and round 1.
  The state is \<open>A = I\<close>, \<open>b = 0\<close>, so \<open>\<theta> = 0\<close> and \<open>\<mu> = 0\<close> for the three
  candidates; each confidence term is the Euclidean norm of the concatenated vector; the
  largest belongs to \<open>(0, 2)\<close>, which is the pair returned.
\<close>

theorem choose_pairs_concrete_scenario:
  "A (LinUCB_init \<lparr>d = 2, lam = 1, beta0 = 1\<rparr>) = [[1, 0], [0, 1]]
   \<and> b (LinUCB_init \<lparr>d = 2, lam = 1, beta0 = 1\<rparr>) = [0, 0]
   \<and> theta np_exact (LinUCB_init \<lparr>d = 2, lam = 1, beta0 = 1\<rparr>) = Inr [0, 0]
   \<and> mu [0, 0] ([1] @ [0]) = Inr 0 \<and> mu [0, 0] ([1] @ [1/2]) = Inr 0 \<and> mu [0, 0] ([0] @ [1/2]) = Inr 0
   \<and> conf [[1, 0], [0, 1]] ([1] @ [0]) = Inr (sqrt (1\<^sup>2 + 0\<^sup>2))
   \<and> conf [[1, 0], [0, 1]] ([1] @ [1/2]) = Inr (sqrt (1\<^sup>2 + (1/2)\<^sup>2))
   \<and> conf [[1, 0], [0, 1]] ([0] @ [1/2]) = Inr (sqrt (0\<^sup>2 + (1/2)\<^sup>2))
   \<and> candidates np_exact (LinUCB_init \<lparr>d = 2, lam = 1, beta0 = 1\<rparr>) [[1], [0], [1/2]] 1
       = Inr [(1, 0, 1), (sqrt (5/4), 0, 2), (1/2, 1, 2)]
   \<and> 1/2 < (1::real) \<and> 1 < sqrt (5/4)
   \<and> choose_pairs np_exact (LinUCB_init \<lparr>d = 2, lam = 1, beta0 = 1\<rparr>) [[1], [0], [1/2]] 1 1
       = Inr [(0, 2)]"
proof -
  have "theta np_exact (LinUCB_init \<lparr>d = 2, lam = 1, beta0 = 1\<rparr>) = Inr [0, 0]"
    by (simp add: theta_def np_exact_def scenario_state exact_solve_I2)
  moreover have "mu [0, 0] ([1] @ [0]) = Inr 0" "mu [0, 0] ([1] @ [1/2]) = Inr 0"
    "mu [0, 0] ([0] @ [1/2]) = Inr 0"
    by (simp_all add: mu_def dot_def)
  moreover have "conf [[1, 0], [0, 1]] ([1] @ [0]) = Inr (sqrt (1\<^sup>2 + 0\<^sup>2))"
    "conf [[1, 0], [0, 1]] ([1] @ [1/2]) = Inr (sqrt (1\<^sup>2 + (1/2)\<^sup>2))"
    "conf [[1, 0], [0, 1]] ([0] @ [1/2]) = Inr (sqrt (0\<^sup>2 + (1/2)\<^sup>2))"
    by (simp_all add: conf_def vec_mat_def dot_def is_mat_def ncols_def upt2 power2_eq_square)
  ultimately show ?thesis
    using scenario_state(1,2) cands_c8 choose_c8 by simp
qed

text \<open>
  Claim C10: for \<open>k_pairs \<ge> 0\<close> and at least two contexts, \<open>choose_pairs\<close> returns
  exactly \<open>min k_pairs (n div 2)\<close> pairs. The call returns when the library calls return
  arrays of the state's dimension and every context has half that dimension.
\<close>

theorem choose_pairs_count_exact:
  assumes "0 \<le> k_pairs" and "2 \<le> length profiles"
    and "linalg_inv np (A s) = Inr A_inv" and "is_mat (d s) (d s) A_inv"
    and "linalg_solve np (A s) (b s) = Inr th" and "length th = d s"
    and "\<forall>p \<in> set profiles. 2 * length p = d s"
  shows "\<exists>pairs. choose_pairs np s profiles k_pairs rnd = Inr pairs
     \<and> int (length pairs) = min k_pairs (int (length profiles div 2))"
proof -
  obtain pairs where p: "choose_pairs np s profiles k_pairs rnd = Inr pairs"
    using choose_pairs_returns[OF assms(3-7)] by blast
  then show ?thesis using choose_pairs_exact[OF p assms(1)] by simp
qed

theorem choose_pairs_count_exact_witness:
  "(0::int) \<le> 3 \<and> 2 \<le> length [[3], [4], [0], [0::real]]
   \<and> linalg_inv np_exact (A (LinUCB_init \<lparr>d = 2, lam = 1, beta0 = 1\<rparr>)) = Inr [[1, 0], [0, 1]]
   \<and> is_mat (d (LinUCB_init \<lparr>d = 2, lam = 1, beta0 = 1\<rparr>)) (d (LinUCB_init \<lparr>d = 2, lam = 1, beta0 = 1\<rparr>))
        [[1, 0], [0, 1]]
   \<and> linalg_solve np_exact (A (LinUCB_init \<lparr>d = 2, lam = 1, beta0 = 1\<rparr>))
        (b (LinUCB_init \<lparr>d = 2, lam = 1, beta0 = 1\<rparr>)) = Inr [0, 0]
   \<and> length [0, 0::real] = d (LinUCB_init \<lparr>d = 2, lam = 1, beta0 = 1\<rparr>)
   \<and> list_all (\<lambda>p. 2 * length p = d (LinUCB_init \<lparr>d = 2, lam = 1, beta0 = 1\<rparr>)) [[3], [4], [0], [0::real]]
   \<and> choose_pairs np_exact (LinUCB_init \<lparr>d = 2, lam = 1, beta0 = 1\<rparr>) [[3], [4], [0], [0]] 3 1
       = Inr [(0, 1), (2, 3)]
   \<and> int (length [(0::nat, 1::nat), (2, 3)]) = min 3 (int (length [[3], [4], [0], [0::real]] div 2))"
proof -
  have h1: "(0::int) \<le> 3" and h2: "2 \<le> length [[3], [4], [0], [0::real]]" by simp_all
  have h4: "is_mat (d (LinUCB_init \<lparr>d = 2, lam = 1, beta0 = 1\<rparr>)) (d (LinUCB_init \<lparr>d = 2, lam = 1, beta0 = 1\<rparr>))
        [[1, 0], [0, 1]]"
    by (simp add: scenario_state is_mat_def)
  have h6: "length [0, 0::real] = d (LinUCB_init \<lparr>d = 2, lam = 1, beta0 = 1\<rparr>)"
    by (simp add: scenario_state)
  have h7: "\<forall>p \<in> set [[3], [4], [0], [0::real]]. 2 * length p = d (LinUCB_init \<lparr>d = 2, lam = 1, beta0 = 1\<rparr>)"
    by (simp add: scenario_state)
  show ?thesis
    using choose_pairs_count_exact[OF h1 h2 scenario_linalg(1) h4 scenario_linalg(2) h6 h7, of 1]
      h4 h6 h7 scenario_linalg choose_4_k3 by simp
qed

section \<open>Properties of the update and of the score\<close>

lemma length_outer: "length (outer x y) = length x"
  by (simp add: outer_def)



lemma is_mat_nth: "is_mat r c M \<Longrightarrow> i < r \<Longrightarrow> length (M ! i) = c"
  by (auto simp: is_mat_def list_all_length)

lemma map_upt_nth_eq: "length xs = n \<Longrightarrow> map (\<lambda>i. f (xs ! i)) [0..<n] = map f xs"
  by (auto simp: list_eq_iff_nth_eq)





lemma init_wf: "wf_state (LinUCB_init c)"
  by (simp add: wf_state_def LinUCB_init_def is_mat_def smult_def eye_def zeros_def list_all_length)

lemma iadd_mat_mismatch:
  assumes "length x \<noteq> length T" "length x \<noteq> 1"
  shows "iadd_mat T (outer x x) = Inl ValueError"
  using assms by (simp add: iadd_mat_def bc_ok_def length_outer)

lemma update_mismatch:
  assumes "length (A s) = d s" "length x \<noteq> d s" "length x \<noteq> 1"
  shows "update s x r = Inl ValueError"
  using assms by (simp add: update_def iadd_mat_mismatch)

lemma update_broadcast:
  assumes "wf_state s" "length x = 1" "d s \<noteq> 1"
  shows "update s x r = Inr (s\<lparr>A := map (map (\<lambda>a. a + x ! 0 * x ! 0)) (A s),
                               b := map (\<lambda>v. v + r * x ! 0) (b s)\<rparr>)"
proof -
  obtain x0 where x: "x = [x0]" using assms(2) by (cases x) auto
  have len: "length (A s) = d s" and nc: "ncols (A s) = d s" and lb: "length (b s) = d s"
    using assms(1) ncols_is_mat[of "d s" "A s"] by (simp_all add: wf_state_def is_mat_def)
  have rows: "\<And>i. i < d s \<Longrightarrow> length (A s ! i) = d s"
    using assms(1) by (auto simp: wf_state_def intro: is_mat_nth)
  have o: "outer x x = [[x0 * x0]]" "ncols [[x0 * x0]] = 1"
    by (simp_all add: x outer_def ncols_def)
  have "iadd_mat (A s) (outer x x) = Inr (map (map (\<lambda>a. a + x0 * x0)) (A s))"
    using assms(3) rows
    by (auto simp: iadd_mat_def bc_ok_def bc_def o len nc list_eq_iff_nth_eq)
  moreover have "iadd_col (b s) (map ((*) r) x) = Inr (map (\<lambda>v. v + r * x0) (b s))"
    using assms(3) by (auto simp: iadd_col_def bc_ok_def bc_def x lb list_eq_iff_nth_eq)
  ultimately show ?thesis by (simp add: update_def x)
qed

lemma ucb_score_mismatch:
  assumes "linalg_solve np (A s) (b s) = Inr th" "length th = d s" "linalg_inv np (A s) = Inr Ai"
    and "length x \<noteq> d s"
  shows "ucb_score np s x rnd = Inl ValueError"
  using assms by (simp add: ucb_score_def theta_def mu_def dot_def)

lemma scenario_init:
  "LinUCB_init \<lparr>d = 2, lam = 1, beta0 = 1\<rparr>
     = \<lparr>d = 2, lam = 1, beta0 = 1, A = [[1, 0], [0, 1]], b = [0, 0]\<rparr>"
  by (simp add: LinUCB_init_def eye2 zeros_def replicate_eq_2)

lemma update_bc_example:
  "update (LinUCB_init \<lparr>d = 2, lam = 1, beta0 = 1\<rparr>) [3] 2
     = Inr \<lparr>d = 2, lam = 1, beta0 = 1, A = [[10, 9], [9, 10]], b = [6, 6]\<rparr>"
  by (simp add: update_def iadd_mat_def iadd_col_def bc_ok_def bc_def outer_def ncols_def
      scenario_init upt2)

text \<open>
  Claim C2 says that \<open>update\<close> and \<open>ucb_score\<close> fail whenever the context vector
  does not have length \<open>d\<close>. The source has no check of its own: the failure comes from
  numpy's shape rules, and those accept a vector of length 1 in \<open>update\<close>, where
  \<^verbatim>\<open>self.A += x @ x.T\<close> and \<^verbatim>\<open>self.b += r * x\<close> broadcast a \<open>(1, 1)\<close> array over the
  whole state. With \<open>d = 2\<close> the vector \<open>[3]\<close> and the reward 2 add 9 to every entry of
  \<open>A\<close> and 6 to every entry of \<open>b\<close>.
\<close>

theorem update_length_one_counterexample:
  "length [3::real] \<noteq> d (LinUCB_init \<lparr>d = 2, lam = 1, beta0 = 1\<rparr>)
   \<and> update (LinUCB_init \<lparr>d = 2, lam = 1, beta0 = 1\<rparr>) [3] 2
       = Inr \<lparr>d = 2, lam = 1, beta0 = 1, A = [[10, 9], [9, 10]], b = [6, 6]\<rparr>"
  using update_bc_example by (simp add: scenario_state)

text \<open>
  Claim C2, amended: for a context vector whose length differs from \<open>d\<close>,
  \<open>update\<close> fails with a shape error (\<open>ValueError\<close>) unless the length is 1, in which
  case it adds \<open>x\<^sub>0\<^sup>2\<close> to every entry of \<open>A\<close> and \<open>r \<cdot> x\<^sub>0\<close> to every entry of \<open>b\<close>;
  \<open>ucb_score\<close> fails with a shape error once the solve and the inverse have returned.
\<close>

theorem dimension_mismatch_behaviour:
  assumes "wf_state s" and "length x \<noteq> d s"
  shows "(length x \<noteq> 1 \<longrightarrow> update s x r = Inl ValueError)
     \<and> (length x = 1 \<longrightarrow>
          update s x r = Inr (s\<lparr>A := map (map (\<lambda>a. a + x ! 0 * x ! 0)) (A s),
                                 b := map (\<lambda>v. v + r * x ! 0) (b s)\<rparr>))
     \<and> (linalg_solve np (A s) (b s) = Inr th \<and> length th = d s \<and> linalg_inv np (A s) = Inr A_inv \<longrightarrow>
          ucb_score np s x rnd = Inl ValueError)"
proof (intro conjI impI)
  assume "length x \<noteq> 1"
  then show "update s x r = Inl ValueError"
    using assms by (simp add: update_mismatch wf_state_def is_mat_def)
next
  assume "length x = 1"
  then show "update s x r = Inr (s\<lparr>A := map (map (\<lambda>a. a + x ! 0 * x ! 0)) (A s),
                                 b := map (\<lambda>v. v + r * x ! 0) (b s)\<rparr>)"
    using assms by (intro update_broadcast) auto
next
  assume "linalg_solve np (A s) (b s) = Inr th \<and> length th = d s \<and> linalg_inv np (A s) = Inr A_inv"
  then show "ucb_score np s x rnd = Inl ValueError"
    using assms(2) by (intro ucb_score_mismatch) auto
qed

theorem dimension_mismatch_behaviour_witness:
  "wf_state (LinUCB_init \<lparr>d = 2, lam = 1, beta0 = 1\<rparr>)
   \<and> length [3::real] \<noteq> d (LinUCB_init \<lparr>d = 2, lam = 1, beta0 = 1\<rparr>)
   \<and> length [1, 2, 3::real] \<noteq> d (LinUCB_init \<lparr>d = 2, lam = 1, beta0 = 1\<rparr>)
   \<and> update (LinUCB_init \<lparr>d = 2, lam = 1, beta0 = 1\<rparr>) [1, 2, 3] 2 = Inl ValueError
   \<and> update (LinUCB_init \<lparr>d = 2, lam = 1, beta0 = 1\<rparr>) [3] 2
       = Inr \<lparr>d = 2, lam = 1, beta0 = 1, A = [[10, 9], [9, 10]], b = [6, 6]\<rparr>
   \<and> ucb_score np_exact (LinUCB_init \<lparr>d = 2, lam = 1, beta0 = 1\<rparr>) [1, 2, 3] 1 = Inl ValueError
   \<and> ucb_score np_exact (LinUCB_init \<lparr>d = 2, lam = 1, beta0 = 1\<rparr>) [3] 1 = Inl ValueError"
proof -
  let ?s = "LinUCB_init \<lparr>d = 2, lam = 1, beta0 = 1\<rparr>"
  have w: "wf_state ?s" by (rule init_wf)
  have l1: "length [3::real] \<noteq> d ?s" and l3: "length [1, 2, 3::real] \<noteq> d ?s"
    by (simp_all add: scenario_state)
  have t: "length [0, 0::real] = d ?s" by (simp add: scenario_state)
  show ?thesis
    using dimension_mismatch_behaviour[OF w l1, of 2 np_exact "[0, 0]" "[[1, 0], [0, 1]]" 1]
      dimension_mismatch_behaviour[OF w l3, of 2 np_exact "[0, 0]" "[[1, 0], [0, 1]]" 1]
      w l1 l3 t scenario_linalg
    by (simp add: scenario_init)
qed

section \<open>Properties of the split allocation\<close>

lemma py_slice_take_drop:
  assumes "0 \<le> c" "0 \<le> n" "c + n \<le> int (length xs)"
  shows "py_slice xs c (c + n) = take (nat n) (drop (nat c) xs)"
proof -
  have "slice_index (length xs) c = nat c" "slice_index (length xs) (c + n) = nat c + nat n"
    using assms by (auto simp: slice_index_def min_def nat_add_distrib)
  then show ?thesis by (simp add: py_slice_def)
qed

lemma alloc_loop_result:
  assumes "\<forall>c \<in> set cs. client_id c \<noteq> None" "distinct (map client_id cs)"
    and "\<forall>c \<in> set cs. 0 \<le> quota key c" "0 \<le> cursor"
    and "cursor + sum_list (map (quota key) cs) \<le> int (length pool)"
  shows "\<exists>sp. alloc_loop key pool cs splits cursor = Inr (sp, cursor + sum_list (map (quota key) cs))
     \<and> (\<forall>c \<in> set cs. \<exists>cid ids. client_id c = Some cid \<and> sp cid = Some ids \<and> int (length ids) = quota key c)
     \<and> concat (map (split_of sp) cs) = take (nat (sum_list (map (quota key) cs))) (drop (nat cursor) pool)
     \<and> (\<forall>k. Some k \<notin> client_id ` set cs \<longrightarrow> sp k = splits k)"
  using assms
proof (induction cs arbitrary: splits cursor)
  case Nil
  then show ?case by simp
next
  case (Cons c cs)
  obtain cid where cid: "client_id c = Some cid" using Cons.prems(1) by auto
  let ?n = "quota key c" and ?S = "sum_list (map (quota key) cs)"
  let ?sl = "py_slice pool cursor (cursor + ?n)"
  have n0: "0 \<le> ?n" using Cons.prems(3) by simp
  have S0: "0 \<le> ?S" by (rule sum_list_nonneg) (use Cons.prems(3) in auto)
  have sl: "?sl = take (nat ?n) (drop (nat cursor) pool)"
    using Cons.prems(4,5) n0 S0 by (intro py_slice_take_drop) auto
  have lsl: "int (length ?sl) = ?n" using Cons.prems(4,5) n0 S0 unfolding sl by auto
  have "\<exists>sp. alloc_loop key pool cs (splits(cid \<mapsto> ?sl)) (cursor + ?n) = Inr (sp, cursor + ?n + ?S)
     \<and> (\<forall>c \<in> set cs. \<exists>cid ids. client_id c = Some cid \<and> sp cid = Some ids \<and> int (length ids) = quota key c)
     \<and> concat (map (split_of sp) cs) = take (nat ?S) (drop (nat (cursor + ?n)) pool)
     \<and> (\<forall>k. Some k \<notin> client_id ` set cs \<longrightarrow> sp k = (splits(cid \<mapsto> ?sl)) k)"
    using Cons.prems n0 by (intro Cons.IH) auto
  then obtain sp where sp: "alloc_loop key pool cs (splits(cid \<mapsto> ?sl)) (cursor + ?n) = Inr (sp, cursor + ?n + ?S)"
    and each: "\<forall>c \<in> set cs. \<exists>cid ids. client_id c = Some cid \<and> sp cid = Some ids \<and> int (length ids) = quota key c"
    and cat: "concat (map (split_of sp) cs) = take (nat ?S) (drop (nat (cursor + ?n)) pool)"
    and rest: "\<forall>k. Some k \<notin> client_id ` set cs \<longrightarrow> sp k = (splits(cid \<mapsto> ?sl)) k"
    by blast
  have notin: "Some cid \<notin> client_id ` set cs" using Cons.prems(2) cid by auto
  then have spc: "sp cid = Some ?sl" using rest by simp
  have run: "alloc_loop key pool (c # cs) splits cursor = Inr (sp, cursor + sum_list (map (quota key) (c # cs)))"
    using sp cid by (simp add: Let_def add.assoc)
  have e1: "\<forall>c' \<in> set (c # cs). \<exists>cid ids. client_id c' = Some cid \<and> sp cid = Some ids \<and> int (length ids) = quota key c'"
    using each cid spc lsl by auto
  have "concat (map (split_of sp) (c # cs)) = ?sl @ take (nat ?S) (drop (nat (cursor + ?n)) pool)"
    using cat cid spc by (simp add: split_of_def)
  also have "\<dots> = take (nat ?n) (drop (nat cursor) pool) @ take (nat ?S) (drop (nat ?n) (drop (nat cursor) pool))"
    using Cons.prems(4) n0 by (simp add: sl nat_add_distrib add.commute)
  also have "\<dots> = take (nat ?n + nat ?S) (drop (nat cursor) pool)"
    by (simp add: take_add)
  also have "nat ?n + nat ?S = nat (sum_list (map (quota key) (c # cs)))"
    using n0 S0 by (simp add: nat_add_distrib)
  finally have e2: "concat (map (split_of sp) (c # cs))
      = take (nat (sum_list (map (quota key) (c # cs)))) (drop (nat cursor) pool)" .
  have e3: "\<forall>k. Some k \<notin> client_id ` set (c # cs) \<longrightarrow> sp k = splits k"
    using rest cid by auto
  show ?case using run e1 e2 e3 by blast
qed


lemma sum_quota_nonneg: "\<forall>c \<in> set cs. 0 \<le> quota key c \<Longrightarrow> 0 \<le> sum_list (map (quota key) cs)"
  by (rule sum_list_nonneg) auto

lemma alloc_splits_result:
  assumes "distinct pool"
    and "\<forall>c \<in> set (roster_clients r). client_id c \<noteq> None" "distinct (map client_id (roster_clients r))"
    and "\<forall>c \<in> set (roster_clients r). 0 \<le> quota train_samples c \<and> 0 \<le> quota val_samples c"
    and "0 \<le> global_test_size"
    and "sum_list (map (quota train_samples) (roster_clients r))
          + sum_list (map (quota val_samples) (roster_clients r)) + global_test_size \<le> int (length pool)"
    and "shuffle seed combined_ids = pool"
  shows "\<exists>train_splits val_splits test_ids.
      alloc_splits shuffle combined_ids r seed global_test_size = Inr (train_splits, val_splits, test_ids)
    \<and> (\<forall>c \<in> set (roster_clients r). \<exists>cid tr va. client_id c = Some cid
          \<and> train_splits cid = Some tr \<and> int (length tr) = quota train_samples c
          \<and> val_splits cid = Some va \<and> int (length va) = quota val_samples c)
    \<and> int (length test_ids) = global_test_size
    \<and> distinct (all_assigned train_splits val_splits test_ids (roster_clients r))
    \<and> set (all_assigned train_splits val_splits test_ids (roster_clients r)) \<subseteq> set pool"
proof -
  let ?cs = "roster_clients r"
  let ?T = "sum_list (map (quota train_samples) ?cs)" and ?V = "sum_list (map (quota val_samples) ?cs)"
  have T0: "0 \<le> ?T" and V0: "0 \<le> ?V" using assms(4) by (auto intro: sum_quota_nonneg)
  have "\<exists>sp. alloc_loop train_samples pool ?cs Map.empty 0 = Inr (sp, 0 + ?T)
     \<and> (\<forall>c \<in> set ?cs. \<exists>cid ids. client_id c = Some cid \<and> sp cid = Some ids \<and> int (length ids) = quota train_samples c)
     \<and> concat (map (split_of sp) ?cs) = take (nat ?T) (drop (nat 0) pool)
     \<and> (\<forall>k. Some k \<notin> client_id ` set ?cs \<longrightarrow> sp k = Map.empty k)"
    using assms(2-6) V0 by (intro alloc_loop_result) auto
  then obtain tr where tr: "alloc_loop train_samples pool ?cs Map.empty 0 = Inr (tr, ?T)"
    and tr_each: "\<forall>c \<in> set ?cs. \<exists>cid ids. client_id c = Some cid \<and> tr cid = Some ids \<and> int (length ids) = quota train_samples c"
    and tr_cat: "concat (map (split_of tr) ?cs) = take (nat ?T) pool"
    by auto
  have "\<exists>sp. alloc_loop val_samples pool ?cs Map.empty ?T = Inr (sp, ?T + ?V)
     \<and> (\<forall>c \<in> set ?cs. \<exists>cid ids. client_id c = Some cid \<and> sp cid = Some ids \<and> int (length ids) = quota val_samples c)
     \<and> concat (map (split_of sp) ?cs) = take (nat ?V) (drop (nat ?T) pool)
     \<and> (\<forall>k. Some k \<notin> client_id ` set ?cs \<longrightarrow> sp k = Map.empty k)"
    using assms(2-6) T0 by (intro alloc_loop_result) auto
  then obtain va where va: "alloc_loop val_samples pool ?cs Map.empty ?T = Inr (va, ?T + ?V)"
    and va_each: "\<forall>c \<in> set ?cs. \<exists>cid ids. client_id c = Some cid \<and> va cid = Some ids \<and> int (length ids) = quota val_samples c"
    and va_cat: "concat (map (split_of va) ?cs) = take (nat ?V) (drop (nat ?T) pool)"
    by auto
  let ?te = "py_slice pool (?T + ?V) (?T + ?V + global_test_size)"
  have te: "?te = take (nat global_test_size) (drop (nat (?T + ?V)) pool)"
    using assms(5,6) T0 V0 by (intro py_slice_take_drop) auto
  have run: "alloc_splits shuffle combined_ids r seed global_test_size = Inr (tr, va, ?te)"
    using assms(6) tr va by (simp add: alloc_splits_def assms(7) Let_def)
  have len_te: "int (length ?te) = global_test_size"
    using assms(5,6) T0 V0 unfolding te by auto
  have "all_assigned tr va ?te ?cs
      = take (nat ?T) pool @ take (nat ?V) (drop (nat ?T) pool)
        @ take (nat global_test_size) (drop (nat ?V) (drop (nat ?T) pool))"
  proof -
    have "drop (nat (?T + ?V)) pool = drop (nat ?V) (drop (nat ?T) pool)"
      using T0 V0 by (simp add: nat_add_distrib add.commute)
    then show ?thesis unfolding all_assigned_def tr_cat va_cat te by simp
  qed
  also have "\<dots> = take (nat ?T + (nat ?V + nat global_test_size)) pool"
    by (simp add: take_add)
  finally have all: "all_assigned tr va ?te ?cs = take (nat ?T + (nat ?V + nat global_test_size)) pool" .
  have d: "distinct (all_assigned tr va ?te ?cs)" unfolding all using assms(1) by simp
  have sub: "set (all_assigned tr va ?te ?cs) \<subseteq> set pool" unfolding all by (rule set_take_subset)
  have each: "\<forall>c \<in> set ?cs. \<exists>cid t v. client_id c = Some cid
          \<and> tr cid = Some t \<and> int (length t) = quota train_samples c
          \<and> va cid = Some v \<and> int (length v) = quota val_samples c"
    using tr_each va_each by fastforce
  show ?thesis using run each len_te d sub by blast
qed

lemma uniq_loop_distinct:
  assumes "seen = set (map item_id uniq)" "distinct (map item_id uniq)"
  shows "distinct (map item_id (uniq_loop item_id xs seen uniq))"
  using assms by (induction item_id xs seen uniq rule: uniq_loop.induct) auto

text \<open>
  Claim C9: for deduplicated identifiers, a shuffle that permutes them, a roster whose
  clients have distinct ids and quotas that are counts, and a pool that is large enough,
  \<open>_alloc_splits\<close> returns; every client has a train and a val set of exactly its
  quotas, the test set has the requested size, and no identifier occurs twice in all the
  sets together: they are pairwise disjoint, and all come from the input. The result is
  a function of the identifiers, the roster, the seed and the test size.
\<close>

theorem alloc_splits_partition:
  assumes "distinct combined_ids"
    and "mset (shuffle seed combined_ids) = mset combined_ids"
    and "\<forall>c \<in> set (roster_clients r). client_id c \<noteq> None"
    and "distinct (map client_id (roster_clients r))"
    and "\<forall>c \<in> set (roster_clients r). 0 \<le> quota train_samples c \<and> 0 \<le> quota val_samples c"
    and "0 \<le> global_test_size"
    and "sum_list (map (quota train_samples) (roster_clients r))
          + sum_list (map (quota val_samples) (roster_clients r)) + global_test_size
          \<le> int (length combined_ids)"
  shows "\<exists>train_splits val_splits test_ids.
      alloc_splits shuffle combined_ids r seed global_test_size = Inr (train_splits, val_splits, test_ids)
    \<and> (\<forall>c \<in> set (roster_clients r). \<exists>cid tr va. client_id c = Some cid
          \<and> train_splits cid = Some tr \<and> int (length tr) = quota train_samples c
          \<and> val_splits cid = Some va \<and> int (length va) = quota val_samples c)
    \<and> int (length test_ids) = global_test_size
    \<and> distinct (all_assigned train_splits val_splits test_ids (roster_clients r))
    \<and> set (all_assigned train_splits val_splits test_ids (roster_clients r)) \<subseteq> set combined_ids"
proof -
  let ?pool = "shuffle seed combined_ids"
  have d: "distinct ?pool" using assms(1,2) by (metis mset_eq_imp_distinct_iff)
  have l: "length ?pool = length combined_ids" using assms(2) by (rule mset_eq_length)
  have s: "set ?pool = set combined_ids" using assms(2) by (rule mset_eq_setD)
  have t: "sum_list (map (quota train_samples) (roster_clients r))
          + sum_list (map (quota val_samples) (roster_clients r)) + global_test_size
          \<le> int (length ?pool)" using assms(7) by (simp add: l)
  have "shuffle seed combined_ids = ?pool" by simp
  from alloc_splits_result[where shuffle = shuffle and seed = seed and combined_ids = combined_ids,
      OF d assms(3,4,5,6) t this]
  show ?thesis unfolding s .
qed

theorem alloc_splits_partition_witness:
  "distinct [''a'', ''b'', ''c'', ''d'', ''e'']
   \<and> mset (rotate (nat 1) [''a'', ''b'', ''c'', ''d'', ''e'']) = mset [''a'', ''b'', ''c'', ''d'', ''e'']
   \<and> alloc_splits (\<lambda>seed. rotate (nat seed)) [''a'', ''b'', ''c'', ''d'', ''e'']
        \<lparr>clients = Some [\<lparr>client_id = Some ''c1'', train_samples = Some 2, val_samples = Some 1\<rparr>,
                          \<lparr>client_id = Some ''c2'', train_samples = Some 1, val_samples = None\<rparr>]\<rparr> 1 1
       = Inr (Map.empty(''c1'' \<mapsto> [''b'', ''c''], ''c2'' \<mapsto> [''d'']),
              Map.empty(''c1'' \<mapsto> [''e''], ''c2'' \<mapsto> []), [''a''])
   \<and> distinct (all_assigned (Map.empty(''c1'' \<mapsto> [''b'', ''c''], ''c2'' \<mapsto> [''d'']))
        (Map.empty(''c1'' \<mapsto> [''e''], ''c2'' \<mapsto> [])) [''a'']
        [\<lparr>client_id = Some ''c1'', train_samples = Some 2, val_samples = Some 1\<rparr>,
         \<lparr>client_id = Some ''c2'', train_samples = Some 1, val_samples = None\<rparr>])"
proof -
  let ?ids = "[''a'', ''b'', ''c'', ''d'', ''e'']"
  let ?r = "\<lparr>clients = Some [\<lparr>client_id = Some ''c1'', train_samples = Some 2, val_samples = Some 1\<rparr>,
                          \<lparr>client_id = Some ''c2'', train_samples = Some 1, val_samples = None\<rparr>]\<rparr>"
  have rc: "roster_clients ?r = [\<lparr>client_id = Some ''c1'', train_samples = Some 2, val_samples = Some 1\<rparr>,
                          \<lparr>client_id = Some ''c2'', train_samples = Some 1, val_samples = None\<rparr>]"
    by (simp add: roster_clients_def)
  have h1: "distinct ?ids" by simp
  have h2: "mset ((\<lambda>seed. rotate (nat seed)) 1 ?ids) = mset ?ids" by simp
  have h3: "\<forall>c \<in> set (roster_clients ?r). client_id c \<noteq> None" by (simp add: rc)
  have h4: "distinct (map client_id (roster_clients ?r))" by (simp add: rc)
  have h5: "\<forall>c \<in> set (roster_clients ?r). 0 \<le> quota train_samples c \<and> 0 \<le> quota val_samples c"
    by (simp add: rc quota_def)
  have h6: "(0::int) \<le> 1" by simp
  have h7: "sum_list (map (quota train_samples) (roster_clients ?r))
          + sum_list (map (quota val_samples) (roster_clients ?r)) + 1 \<le> int (length ?ids)"
    by (simp add: rc quota_def)
  have run: "alloc_splits (\<lambda>seed. rotate (nat seed)) ?ids ?r 1 1
       = Inr (Map.empty(''c1'' \<mapsto> [''b'', ''c''], ''c2'' \<mapsto> [''d'']),
              Map.empty(''c1'' \<mapsto> [''e''], ''c2'' \<mapsto> []), [''a''])"
    by (simp add: alloc_splits_def rc quota_def py_slice_def slice_index_def Let_def rotate1_def)
  show ?thesis
    using alloc_splits_partition[where shuffle = "\<lambda>seed. rotate (nat seed)", OF h1 h2 h3 h4 h5 h6 h7]
      run h2 by (simp add: rc)
qed

section \<open>Positive definiteness of the design matrix\<close>

lemma sum_list_map2_nth:
  assumes "length xs = n" "length ys = n"
  shows "sum_list (map2 (*) xs ys) = (\<Sum>i<n. xs ! i * (ys ! i :: real))"
proof -
  have "sum_list (map2 (*) xs ys) = (\<Sum>i = 0..<length (map2 (*) xs ys). map2 (*) xs ys ! i)"
    by (rule sum_list_sum_nth)
  also have "\<dots> = (\<Sum>i<n. xs ! i * ys ! i)"
    using assms by (intro sum.cong) (auto simp: atLeast0LessThan)
  finally show ?thesis .
qed

lemma conf_value:
  assumes "is_mat n n Ai" "length x = n"
  shows "conf Ai x = Inr (sqrt (quad_fn n (entries Ai) (\<lambda>i. x ! i)))"
proof -
  have nc: "ncols Ai = n" by (rule ncols_is_mat[OF assms(1)])
  have len: "length Ai = n" using assms(1) by (simp add: is_mat_def)
  let ?y = "map (\<lambda>j. sum_list (map2 (*) x (map (\<lambda>row. row ! j) Ai))) [0..<n]"
  have vm: "vec_mat x Ai = Inr ?y" using assms by (simp add: vec_mat_def nc)
  have yj: "?y ! j = (\<Sum>i<n. x ! i * entries Ai i j)" if "j < n" for j
    using that assms(2) len by (simp add: sum_list_map2_nth[where n = n] entries_def)
  have "sum_list (map2 (*) ?y x) = (\<Sum>j<n. ?y ! j * x ! j)"
    using assms(2) by (intro sum_list_map2_nth) simp_all
  also have "\<dots> = (\<Sum>j<n. (\<Sum>i<n. x ! i * entries Ai i j) * x ! j)"
    by (intro sum.cong refl) (simp only: yj lessThan_iff)
  also have "\<dots> = (\<Sum>j<n. \<Sum>i<n. x ! i * entries Ai i j * x ! j)"
    by (simp add: sum_distrib_right)
  also have "\<dots> = quad_fn n (entries Ai) (\<lambda>i. x ! i)"
    unfolding quad_fn_def by (rule sum.swap)
  finally have "dot ?y x = Inr (quad_fn n (entries Ai) (\<lambda>i. x ! i))"
    using assms(2) by (simp add: dot_def)
  then show ?thesis by (simp add: conf_def vm)
qed

lemma mat_mul_entry:
  assumes "is_mat n n M" "is_mat n n N" "i < n" "k < n"
  shows "mat_mul M N ! i ! k = (\<Sum>j<n. entries M i j * entries N j k)"
proof -
  have nc: "ncols N = n" by (rule ncols_is_mat[OF assms(2)])
  have lm: "length M = n" and ln: "length N = n" using assms(1,2) by (simp_all add: is_mat_def)
  have row: "length (M ! i) = n" using assms(1,3) by (rule is_mat_nth)
  show ?thesis
    using assms(3,4) lm ln row
    by (simp add: mat_mul_def nc sum_list_map2_nth[where n = n] entries_def)
qed

lemma eye_entry: "i < n \<Longrightarrow> k < n \<Longrightarrow> eye n ! i ! k = (if i = k then 1 else 0)"
  by (simp add: eye_def)

text \<open>A right inverse of a matrix with positive quadratic form has a positive quadratic form.\<close>

lemma quad_inverse_pos:
  assumes pos: "\<And>y. (\<exists>i<n. y i \<noteq> 0) \<Longrightarrow> 0 < quad_fn n f y"
    and inv: "\<And>i k. i < n \<Longrightarrow> k < n \<Longrightarrow> (\<Sum>j<n. f i j * g j k) = (if i = k then 1 else 0)"
    and x: "\<exists>i<n. x i \<noteq> 0"
  shows "0 < quad_fn n g x"
proof -
  define y where "y j = (\<Sum>k<n. g j k * x k)" for j
  have Ay: "(\<Sum>j<n. f i j * y j) = x i" if "i < n" for i
  proof -
    have "(\<Sum>j<n. f i j * y j) = (\<Sum>j<n. \<Sum>k<n. f i j * g j k * x k)"
      by (simp add: y_def sum_distrib_left mult.assoc)
    also have "\<dots> = (\<Sum>k<n. \<Sum>j<n. f i j * g j k * x k)" by (rule sum.swap)
    also have "\<dots> = (\<Sum>k<n. (\<Sum>j<n. f i j * g j k) * x k)" by (simp add: sum_distrib_right)
    also have "\<dots> = (\<Sum>k<n. (if i = k then 1 else 0) * x k)"
      by (intro sum.cong refl) (simp add: inv that)
    also have "\<dots> = x i" using that by (simp add: if_distrib[of "\<lambda>v. v * _"] cong: if_cong)
    finally show ?thesis .
  qed
  have ynz: "\<exists>j<n. y j \<noteq> 0"
  proof (rule ccontr)
    assume "\<not> (\<exists>j<n. y j \<noteq> 0)"
    then have z: "\<And>j. j < n \<Longrightarrow> y j = 0" by blast
    obtain i where i: "i < n" "x i \<noteq> 0" using x by blast
    have "x i = (\<Sum>j<n. f i j * y j)" using Ay[OF i(1)] by simp
    also have "\<dots> = 0" by (intro sum.neutral) (simp add: z)
    finally show False using i(2) by simp
  qed
  have "quad_fn n f y = (\<Sum>i<n. y i * (\<Sum>j<n. f i j * y j))"
    by (simp add: quad_fn_def sum_distrib_left mult.assoc)
  also have "\<dots> = (\<Sum>i<n. y i * x i)" by (intro sum.cong refl) (simp add: Ay)
  finally have qa: "quad_fn n f y = (\<Sum>i<n. y i * x i)" .
  have "quad_fn n g x = (\<Sum>i<n. x i * (\<Sum>j<n. g i j * x j))"
    by (simp add: quad_fn_def sum_distrib_left mult.assoc)
  also have "\<dots> = (\<Sum>i<n. y i * x i)" by (simp add: y_def mult.commute)
  finally have "quad_fn n g x = quad_fn n f y" using qa by simp
  then show ?thesis using pos[OF ynz] by simp
qed












lemma beta_mono:
  assumes "0 \<le> beta0 s" "r1 \<le> r2"
  shows "beta s r2 \<le> beta s r1"
proof -
  have "sqrt (of_int (max 1 r1)) \<le> sqrt (of_int (max 1 r2))" using assms(2) by simp
  moreover have "0 < sqrt (of_int (max 1 r1))" by simp
  ultimately show ?thesis using assms(1) unfolding beta_def by (intro divide_left_mono) auto
qed

lemma beta_floor: "r1 \<le> 1 \<Longrightarrow> r2 \<le> 1 \<Longrightarrow> beta s r2 = beta s r1"
  by (simp add: beta_def max_def)

lemma beta_strict:
  assumes "0 < beta0 s" "1 \<le> r1" "r1 < r2"
  shows "beta s r2 < beta s r1"
proof -
  have "sqrt (of_int (max 1 r1)) < sqrt (of_int (max 1 r2))" using assms(2,3) by simp
  moreover have "0 < sqrt (of_int (max 1 r1))" by simp
  ultimately show ?thesis using assms(1) unfolding beta_def by (intro divide_strict_left_mono) auto
qed

lemma quad_fn_zero: "(\<And>i. i < n \<Longrightarrow> x i = 0) \<Longrightarrow> quad_fn n f x = 0"
  by (simp add: quad_fn_def)

lemma nonzero_entry:
  assumes "length x = n" "x \<noteq> zeros n"
  shows "\<exists>i<n. x ! i \<noteq> 0"
proof (rule ccontr)
  assume "\<not> (\<exists>i<n. x ! i \<noteq> 0)"
  then have "x = zeros n" using assms(1) by (auto simp: zeros_def list_eq_iff_nth_eq)
  then show False using assms(2) by simp
qed

lemma conf_inverse:
  assumes "pos_def M" "length M = n" "is_mat n n Mi" "mat_mul M Mi = eye n" "length x = n"
  shows "\<exists>cf. conf Mi x = Inr cf \<and> 0 \<le> cf \<and> (x \<noteq> zeros n \<longrightarrow> 0 < cf)"
proof -
  let ?q = "quad_fn n (entries Mi) (\<lambda>i. x ! i)"
  have m: "is_mat n n M" and pd: "pd_fn n (entries M)" using assms(1,2) by (auto simp: pos_def_def)
  have inv: "(\<Sum>j<n. entries M i j * entries Mi j k) = (if i = k then 1 else 0)"
    if "i < n" "k < n" for i k
    using mat_mul_entry[OF m assms(3) that] eye_entry[OF that] assms(4) by simp
  have pos: "0 < ?q" if "x \<noteq> zeros n"
  proof (rule quad_inverse_pos[where f = "entries M"])
    show "0 < quad_fn n (entries M) y" if "\<exists>i<n. y i \<noteq> 0" for y
      using pd that by (simp add: pd_fn_def)
    show "(\<Sum>j<n. entries M i j * entries Mi j k) = (if i = k then 1 else 0)" if "i < n" "k < n" for i k
      by (rule inv[OF that])
    show "\<exists>i<n. x ! i \<noteq> 0" by (rule nonzero_entry[OF assms(5) \<open>x \<noteq> zeros n\<close>])
  qed
  have nonneg: "0 \<le> ?q"
  proof (cases "x = zeros n")
    case True
    then have "?q = 0" by (intro quad_fn_zero) (simp add: zeros_def)
    then show ?thesis by simp
  next
    case False
    then show ?thesis using pos by simp
  qed
  have "conf Mi x = Inr (sqrt ?q)" by (rule conf_value[OF assms(3,5)])
  then show ?thesis using nonneg pos by simp
qed

lemma mat_mul_I2: "mat_mul [[1, 0], [0, 1]] [[1, 0], [0, 1]] = eye 2"
  by (simp add: mat_mul_def ncols_def eye_def upt2)

section \<open>The determinant of a positive definite matrix\<close>

text \<open>
  The Laplace expansion is linear in every row and vanishes when two rows are equal, so
  adding a multiple of one row to another does not change it. Clearing the first column
  of a positive definite matrix leaves its Schur complement, which is positive definite
  again; induction on the dimension gives a positive determinant.
\<close>

declare det_fn.simps(2) [simp del]























section \<open>Selection with fewer than two contexts\<close>








section \<open>Rounding to a floating-point format\<close>

text \<open>
  The exponent search returns the binade of its argument. Rounding leaves the numbers of
  the format unchanged, is monotone on the non-negative reals, and is idempotent.
\<close>

lemma expo_Some_iff:
  "expo emin emax x = Some e \<longleftrightarrow>
     emin \<le> e \<and> e \<le> emax \<and> \<bar>x\<bar> < 2 powi (e + 1) \<and> (e = emin \<or> 2 powi e \<le> \<bar>x\<bar>)"
proof
  assume "expo emin emax x = Some e"
  then obtain k where k: "k < length [emin..emax]" "\<bar>x\<bar> < 2 powi ([emin..emax] ! k + 1)"
      "e = [emin..emax] ! k" "\<forall>j<k. \<not> \<bar>x\<bar> < 2 powi ([emin..emax] ! j + 1)"
    unfolding expo_def find_Some_iff by blast
  have nth: "[emin..emax] ! j = emin + int j" if "j \<le> k" for j
    using that k(1) by (intro nth_upto) auto
  have e: "e = emin + int k" using k(3) nth[of k] by simp
  have "e = emin \<or> 2 powi e \<le> \<bar>x\<bar>"
  proof (cases k)
    case 0
    then show ?thesis using e by simp
  next
    case (Suc j)
    then have "\<not> \<bar>x\<bar> < 2 powi ([emin..emax] ! j + 1)" using k(4) by simp
    moreover have "[emin..emax] ! j + 1 = e" using nth[of j] Suc e by simp
    ultimately show ?thesis by simp
  qed
  moreover have "e \<le> emax" using k(1) e by auto
  ultimately show "emin \<le> e \<and> e \<le> emax \<and> \<bar>x\<bar> < 2 powi (e + 1) \<and> (e = emin \<or> 2 powi e \<le> \<bar>x\<bar>)"
    using e k(2,3) by simp
next
  assume a: "emin \<le> e \<and> e \<le> emax \<and> \<bar>x\<bar> < 2 powi (e + 1) \<and> (e = emin \<or> 2 powi e \<le> \<bar>x\<bar>)"
  define k where "k = nat (e - emin)"
  have kl: "k < length [emin..emax]" using a by (simp add: k_def)
  have nth: "[emin..emax] ! j = emin + int j" if "j \<le> k" for j
    using that kl by (intro nth_upto) auto
  have ek: "[emin..emax] ! k = e" using nth[of k] a by (simp add: k_def)
  have "\<not> \<bar>x\<bar> < 2 powi ([emin..emax] ! j + 1)" if "j < k" for j
  proof -
    have "emin + int j + 1 \<le> e" using that a by (simp add: k_def)
    then have "(2::real) powi (emin + int j + 1) \<le> 2 powi e" by (intro power_int_increasing) auto
    moreover have "2 powi e \<le> \<bar>x\<bar>" using a that by (auto simp: k_def)
    ultimately show ?thesis using nth[of j] that by simp
  qed
  then show "expo emin emax x = Some e"
    unfolding expo_def find_Some_iff using kl ek a by (intro exI[of _ k]) auto
qed

lemma fround_at:
  assumes "emin \<le> e" "e \<le> emax" "\<bar>x\<bar> < 2 powi (e + 1)" "e = emin \<or> 2 powi e \<le> \<bar>x\<bar>"
  shows "fround p emin emax x =
     (if \<bar>real_of_int (rne (x / 2 powi (e + 1 - int p))) * 2 powi (e + 1 - int p)\<bar> < 2 powi (emax + 1)
      then Some (real_of_int (rne (x / 2 powi (e + 1 - int p))) * 2 powi (e + 1 - int p)) else None)"
proof -
  have "expo emin emax x = Some e" using assms by (simp add: expo_Some_iff)
  then show ?thesis by (simp add: fround_def Let_def)
qed

lemma rne_of_int [simp]: "rne (of_int n) = n"
  by (simp add: rne_def)




lemma rne_numeral [simp]: "rne (numeral n) = numeral n"
  using rne_of_int[of "numeral n"] by simp

lemma rne_0 [simp]: "rne 0 = 0"
  using rne_of_int[of 0] by simp

lemma rne_1 [simp]: "rne 1 = 1"
  using rne_of_int[of 1] by simp

lemma expo_None_iff:
  assumes "emin \<le> emax"
  shows "expo emin emax x = None \<longleftrightarrow> 2 powi (emax + 1) \<le> \<bar>x\<bar>"
proof
  assume "expo emin emax x = None"
  then have "\<not> \<bar>x\<bar> < 2 powi (emax + 1)"
    unfolding expo_def find_None_iff using assms by auto
  then show "2 powi (emax + 1) \<le> \<bar>x\<bar>" by simp
next
  assume a: "2 powi (emax + 1) \<le> \<bar>x\<bar>"
  have "\<not> \<bar>x\<bar> < 2 powi (e + 1)" if "e \<in> set [emin..emax]" for e
  proof -
    have "(2::real) powi (e + 1) \<le> 2 powi (emax + 1)" using that by (intro power_int_increasing) auto
    then show ?thesis using a by simp
  qed
  then show "expo emin emax x = None" unfolding expo_def find_None_iff by blast
qed

lemma expo_exists:
  assumes "emin \<le> emax" "\<bar>x\<bar> < 2 powi (emax + 1)"
  obtains e where "expo emin emax x = Some e"
  using assms expo_None_iff[OF assms(1), of x] by (cases "expo emin emax x") auto

lemma p2_less_imp: "(2::real) powi i < 2 powi j \<Longrightarrow> i < j"
proof (rule ccontr)
  assume a: "(2::real) powi i < 2 powi j" "\<not> i < j"
  then have "(2::real) powi j \<le> 2 powi i" by (intro power_int_increasing) auto
  then show False using a(1) by simp
qed

lemma fround_representable:
  assumes x: "x = of_int m * 2 powi k" and m: "\<bar>m\<bar> < 2 ^ p"
    and k: "emin + 1 - int p \<le> k" and rng: "\<bar>x\<bar> < 2 powi (emax + 1)" and le: "emin \<le> emax"
  shows "fround p emin emax x = Some x"
proof -
  obtain e where e: "expo emin emax x = Some e" using expo_exists[OF le rng] by blast
  then have c: "emin \<le> e" "e \<le> emax" "\<bar>x\<bar> < 2 powi (e + 1)" "e = emin \<or> 2 powi e \<le> \<bar>x\<bar>"
    by (simp_all add: expo_Some_iff)
  have ek: "e + 1 - int p \<le> k"
  proof (cases "e = emin")
    case True
    then show ?thesis using k by simp
  next
    case False
    then have "2 powi e \<le> \<bar>x\<bar>" using c(4) by simp
    also have "\<bar>x\<bar> = \<bar>of_int m\<bar> * 2 powi k" by (simp add: x abs_mult)
    also have "\<dots> < 2 ^ p * 2 powi k"
    proof -
      have "\<bar>real_of_int m\<bar> < 2 ^ p" using m by (metis of_int_abs of_int_less_numeral_power_cancel_iff)
      then show ?thesis by (intro mult_strict_right_mono) auto
    qed
    also have "\<dots> = 2 powi (int p + k)" by (simp add: power_int_add)
    finally have "(2::real) powi e < 2 powi (int p + k)" .
    then have "e < int p + k" by (rule p2_less_imp)
    then show ?thesis by simp
  qed
  define j where "j = nat (k - (e + 1 - int p))"
  have kj: "k = (e + 1 - int p) + int j" using ek by (simp add: j_def)
  have "x / 2 powi (e + 1 - int p) = of_int (m * 2 ^ j)"
    unfolding x kj by (simp add: power_int_add)
  then have r: "rne (x / 2 powi (e + 1 - int p)) = m * 2 ^ j" by (simp only: rne_of_int)
  have y: "real_of_int (m * 2 ^ j) * 2 powi (e + 1 - int p) = x"
    unfolding x kj by (simp add: power_int_add)
  show ?thesis using rng by (simp add: fround_at[OF c] r y del: of_int_mult)
qed





lemma fround_0: "emin \<le> emax \<Longrightarrow> fround p emin emax 0 = Some 0"
  by (rule fround_representable[where m = 0 and k = "emin + 1 - int p"]) simp_all


lemma f32_representable:
  assumes "x = of_int m * 2 powi k" "\<bar>m\<bar> < 2 ^ 24" "- 149 \<le> k" "\<bar>x\<bar> < 2 powi 128"
  shows "f32 x = Some x"
  unfolding f32_def by (rule fround_representable[OF assms(1,2)]) (use assms(3,4) in simp_all)

lemma f32_int: "\<bar>m\<bar> < 2 ^ 24 \<Longrightarrow> f32 (of_int m) = Some (of_int m)"
proof -
  assume m: "\<bar>m\<bar> < 2 ^ 24"
  have "\<bar>real_of_int m\<bar> < 2 ^ 24" using m by (metis of_int_abs of_int_less_numeral_power_cancel_iff)
  then have "\<bar>real_of_int m\<bar> < 2 powi 128" by simp
  then show ?thesis using m by (intro f32_representable[where m = m and k = 0]) simp_all
qed



lemma f64_representable:
  assumes "x = of_int m * 2 powi k" "\<bar>m\<bar> < 2 ^ 53" "- 1074 \<le> k" "\<bar>x\<bar> < 2 powi 1024"
  shows "f64 x = Some x"
  unfolding f64_def by (rule fround_representable[OF assms(1,2)]) (use assms(3,4) in simp_all)

lemma f64_int: "\<bar>m\<bar> < 2 ^ 53 \<Longrightarrow> f64 (of_int m) = Some (of_int m)"
proof -
  assume m: "\<bar>m\<bar> < 2 ^ 53"
  have "\<bar>real_of_int m\<bar> < 2 ^ 53" using m by (metis of_int_abs of_int_less_numeral_power_cancel_iff)
  then have "\<bar>real_of_int m\<bar> < 2 powi 1024" by simp
  then show ?thesis using m by (intro f64_representable[where m = m and k = 0]) simp_all
qed

lemma f64_smalls [simp]:
  "f64 0 = Some 0" "f64 1 = Some 1" "f64 2 = Some 2" "f64 4 = Some 4"
  using f64_int[of 0] f64_int[of 1] f64_int[of 2] f64_int[of 4] by simp_all

lemma f64_half [simp]: "f64 (1/2) = Some (1/2)"
  by (rule f64_representable[where m = 1 and k = "-1"]) (simp_all add: power_int_minus)









section \<open>The update in float32\<close>

lemma fops_Some [simp]:
  "fadd32 (Some x) (Some y) = f32 (x + y)" "fmul32 (Some x) (Some y) = f32 (x * y)"
  "fadd64 (Some x) (Some y) = f64 (x + y)" "fmul64 (Some x) (Some y) = f64 (x * y)"
  by (simp_all add: fadd32_def fmul32_def fadd64_def fmul64_def fl2_def)


lemma f32_2m13 [simp]: "f32 (1/8192) = Some (1/8192)"
  by (rule f32_representable[where m = 1 and k = "-13"]) (simp_all add: power_int_minus field_simps)

lemma f32_2m26 [simp]: "f32 (1/67108864) = Some (1/67108864)"
  by (rule f32_representable[where m = 1 and k = "-26"]) (simp_all add: power_int_minus field_simps)

lemma f32_one_plus_2m26 [simp]: "f32 (67108865/67108864) = Some 1"
  unfolding f32_def
  by (subst fround_at[where e = 0]) (simp_all add: rne_def)





lemma is_fmat_nth: "is_fmat r c M \<Longrightarrow> i < r \<Longrightarrow> length (M ! i) = c"
  by (auto simp: is_fmat_def list_all_length)










section \<open>The design matrix in float32\<close>

lemma f32_10000 [simp]: "f32 10000 = Some 10000"
  using f32_int[of 10000] by simp

lemma f32_1e8 [simp]: "f32 100000000 = Some 100000000"
  by (rule f32_representable[where m = 390625 and k = 8]) simp_all

lemma f32_1e8_plus_1 [simp]: "f32 100000001 = Some 100000000"
  unfolding f32_def
  by (subst fround_at[where e = 26]) (simp_all add: rne_def)










section \<open>The exploration term in floating point\<close>



























end
